theory Spec2Isabelle
  imports Main "HOL-Library.Word"
begin

section \<open>Constants of gstgzdec.h and zlib.h\<close>

type_synonym byte = "8 word"

text \<open>\<^verbatim>\<open>#define CHUNK (1024 * 256)\<close>: the unit of decoding.\<close>

definition CHUNK :: nat where
  "CHUNK = 1024 * 256"

text \<open>The return codes of zlib that \<^verbatim>\<open>decode_message\<close> looks at.\<close>

definition Z_OK :: int where "Z_OK = 0"
definition Z_STREAM_END :: int where "Z_STREAM_END = 1"
definition Z_NEED_DICT :: int where "Z_NEED_DICT = 2"
definition Z_STREAM_ERROR :: int where "Z_STREAM_ERROR = - 2"
definition Z_DATA_ERROR :: int where "Z_DATA_ERROR = - 3"
definition Z_MEM_ERROR :: int where "Z_MEM_ERROR = - 4"
definition Z_BUF_ERROR :: int where "Z_BUF_ERROR = - 5"

section \<open>The decompression engine and the global \<^verbatim>\<open>z_stream\<close>\<close>

text \<open>
  zlib is an external library. An engine is any pair of functions standing for
  \<^verbatim>\<open>inflate\<close> and \<^verbatim>\<open>inflateEnd\<close> on the engine's internal state \<open>'z\<close>: given the
  internal state, the \<^verbatim>\<open>avail_in\<close> bytes at \<^verbatim>\<open>next_in\<close> and \<^verbatim>\<open>avail_out\<close>, the first
  yields a return code, the new internal state, the number of input bytes it consumed and
  the bytes it wrote at \<^verbatim>\<open>next_out\<close>.
\<close>

record 'z engine =
  zinflate :: "'z \<Rightarrow> byte list \<Rightarrow> nat \<Rightarrow> int \<times> 'z \<times> nat \<times> byte list"
  zinflateEnd :: "'z \<Rightarrow> 'z"

text \<open>
  The fields of \<^verbatim>\<open>z_stream stream\<close> that the program touches. \<open>next_in\<close> holds the
  \<^verbatim>\<open>avail_in\<close> bytes that are readable at the pointer \<^verbatim>\<open>next_in\<close>.
\<close>

record 'z z_stream =
  next_in :: "byte list"
  avail_out :: nat
  zstate :: "'z"

text \<open>
  \<^verbatim>\<open>inflate (&stream, Z_NO_FLUSH)\<close>: the interface of zlib lets the engine read at most
  \<^verbatim>\<open>avail_in\<close> bytes and write at most \<^verbatim>\<open>avail_out\<close> bytes, and the call advances
  \<^verbatim>\<open>next_in\<close> and lowers \<^verbatim>\<open>avail_out\<close> by what was used. The result is the return code,
  the bytes now at the start of the output buffer, and the stream.
\<close>

definition inflate :: "'z engine \<Rightarrow> 'z z_stream \<Rightarrow> int \<times> byte list \<times> 'z z_stream" where
  "inflate eng strm =
     (case zinflate eng (zstate strm) (next_in strm) (avail_out strm) of
        (r, z', consumed, output) \<Rightarrow>
          (let written = take (avail_out strm) output;
               used = min consumed (length (next_in strm))
           in (r, written,
               strm\<lparr>next_in := drop used (next_in strm),
                    avail_out := avail_out strm - length written,
                    zstate := z'\<rparr>)))"

text \<open>\<^verbatim>\<open>inflateEnd (&stream)\<close> releases the engine's internal state.\<close>

definition inflateEnd :: "'z engine \<Rightarrow> 'z z_stream \<Rightarrow> 'z z_stream" where
  "inflateEnd eng strm = strm\<lparr>zstate := zinflateEnd eng (zstate strm)\<rparr>"

section \<open>Memory\<close>

text \<open>
  A run that writes or reads outside a block has no defined result in C; the model
  returns a fault instead.
\<close>

datatype fault = HeapOverflow | NullPointer

text \<open>
  \<^verbatim>\<open>memcpy (dst + off, src, n)\<close> on a block \<open>dst\<close>: the \<open>n\<close> bytes from offset \<open>off\<close>
  are replaced by the first \<open>n\<close> bytes of \<open>src\<close>.
\<close>

definition memcpy :: "byte list \<Rightarrow> nat \<Rightarrow> byte list \<Rightarrow> nat \<Rightarrow> fault + byte list" where
  "memcpy dst off src n =
     (if n = 0 then Inr dst
      else if length dst < off + n \<or> length src < n then Inl HeapOverflow
      else Inr (take off dst @ take n src @ drop (off + n) dst))"

text \<open>
  \<^verbatim>\<open>struct ll_buffer\<close>: \<open>data\<close> is \<open>None\<close> for the null pointer that \<^verbatim>\<open>g_malloc0\<close> leaves
  in a new node, and the bytes of the block otherwise. The \<^verbatim>\<open>next\<close> pointers are the
  order of the list that holds the nodes.
\<close>

record ll_buffer =
  data :: "byte list option"
  len :: nat

definition new_node :: ll_buffer where
  "new_node = \<lparr>data = None, len = 0\<rparr>"

section \<open>The state of \<^verbatim>\<open>decode_message\<close>\<close>

text \<open>What the engine was asked, in the order of the calls.\<close>

datatype event =
    Feed nat
  | Inflate int "byte list"
  | InflateEnd

text \<open>
  \<open>chain\<close> holds the nodes from \<^verbatim>\<open>head\<close> up to, not including, \<^verbatim>\<open>outdata\<close>; \<open>outlen\<close>
  is \<^verbatim>\<open>*outlen\<close>, a \<^verbatim>\<open>gulong\<close> of 64 bits; \<open>trace\<close> gets \<open>Feed n\<close> when a slice of \<open>n\<close>
  bytes is handed to the stream, \<open>Inflate r bs\<close> when a call of \<^verbatim>\<open>inflate\<close> returns \<open>r\<close>
  after writing the bytes \<open>bs\<close>, and \<open>InflateEnd\<close> when \<^verbatim>\<open>inflateEnd\<close> is called. The trace
  is not a variable of the program: it is kept so that statements can speak of the calls
  made, and nothing the program computes depends on it.
\<close>

record 'z dstate =
  stream :: "'z z_stream"
  chain :: "ll_buffer list"
  outdata :: ll_buffer
  outlen :: "64 word"
  ret :: int
  trace :: "event list"

text \<open>
  \<^verbatim>\<open>outdata->next = g_malloc0 (sizeof(struct ll_buffer)); outdata = outdata->next;\<close>
\<close>

definition link_node :: "'z dstate \<Rightarrow> 'z dstate" where
  "link_node s = s\<lparr>chain := chain s @ [outdata s], outdata := new_node\<rparr>"

text \<open>\<^verbatim>\<open>stream.avail_in = n; ...; stream.next_in = inbuffer;\<close>\<close>

definition feed_slice :: "'z dstate \<Rightarrow> nat \<Rightarrow> byte list \<Rightarrow> 'z dstate" where
  "feed_slice s avail_in inbuffer =
     s\<lparr>stream := (stream s)\<lparr>next_in := take avail_in inbuffer\<rparr>,
       trace := trace s @ [Feed avail_in]\<rparr>"

datatype 'z step =
    Crash fault
  | Abort int "'z dstate"
  | More "'z dstate"
  | Done "'z dstate"

datatype 'z outcome =
    Crashed fault
  | Aborted int "'z dstate"
  | Finished "'z dstate"

section \<open>The inner loop: draining one slice\<close>

text \<open>
  One pass through the body of the inner \<^verbatim>\<open>do ... while (stream.avail_out == 0)\<close>:
  \<open>Abort\<close> is the \<^verbatim>\<open>return ret\<close> inside the \<^verbatim>\<open>switch\<close>, \<open>More\<close> a pass after which the
  loop goes on, \<open>Done\<close> the last pass.
\<close>

definition drain_step :: "'z engine \<Rightarrow> 'z dstate \<Rightarrow> 'z step" where
  "drain_step eng s =
     (let block0 = replicate CHUNK 0;
          od = (outdata s)\<lparr>data := Some block0\<rparr>
      in case inflate eng ((stream s)\<lparr>avail_out := CHUNK\<rparr>) of
        (r, outbuffer, strm) \<Rightarrow>
          (let tr = trace s @ [Inflate r outbuffer]
           in if r = Z_NEED_DICT \<or> r = Z_DATA_ERROR \<or> r = Z_MEM_ERROR \<or> r = Z_STREAM_ERROR
              then
                (let r' = (if r = Z_NEED_DICT then Z_DATA_ERROR else r)
                 in Abort r' (s\<lparr>stream := inflateEnd eng strm, outdata := od, ret := r',
                                trace := tr @ [InflateEnd]\<rparr>))
              else
                (let processed = CHUNK - avail_out strm
                 in case memcpy block0 (len od) outbuffer processed of
                      Inl f \<Rightarrow> Crash f
                    | Inr block \<Rightarrow>
                        (let od' = od\<lparr>data := Some block, len := len od + processed\<rparr>;
                             s' = s\<lparr>stream := strm, outdata := od',
                                    outlen := outlen s + of_nat processed,
                                    ret := r, trace := tr\<rparr>
                         in if avail_out strm = 0 then More (link_node s') else Done s'))))"

partial_function (option) drain :: "'z engine \<Rightarrow> 'z dstate \<Rightarrow> 'z outcome option" where
  "drain eng s =
     (case drain_step eng s of
        Crash f \<Rightarrow> Some (Crashed f)
      | Abort r s' \<Rightarrow> Some (Aborted r s')
      | More s' \<Rightarrow> drain eng s'
      | Done s' \<Rightarrow> Some (Finished s'))"

declare drain.simps [code]

section \<open>The outer loop: feeding slices\<close>

text \<open>
  The head of the outer loop: \<^verbatim>\<open>inbuffer\<close> is zeroed, the next slice is copied into it,
  and \<^verbatim>\<open>remainder\<close> and \<^verbatim>\<open>srcidx\<close> move on. The result is \<^verbatim>\<open>stream.avail_in\<close>,
  \<^verbatim>\<open>inbuffer\<close>, \<^verbatim>\<open>remainder\<close> and the bytes from \<^verbatim>\<open>srcidx\<close> on.
\<close>

definition next_slice :: "nat \<Rightarrow> byte list \<Rightarrow> nat \<times> byte list \<times> nat \<times> byte list" where
  "next_slice remainder srcidx =
     (if CHUNK \<le> remainder
      then (CHUNK, take CHUNK srcidx @ replicate (CHUNK - length (take CHUNK srcidx)) 0,
            remainder - CHUNK, drop CHUNK srcidx)
      else (remainder, take remainder srcidx @ replicate (CHUNK - length (take remainder srcidx)) 0,
            0, srcidx))"

function feed_loop :: "'z engine \<Rightarrow> 'z dstate \<Rightarrow> nat \<Rightarrow> byte list \<Rightarrow> 'z outcome option" where
  "feed_loop eng s remainder srcidx =
     (case next_slice remainder srcidx of
        (avail_in, inbuffer, remainder', srcidx') \<Rightarrow>
          if avail_in = 0 then Some (Finished (s\<lparr>stream := (stream s)\<lparr>next_in := []\<rparr>\<rparr>))
          else
            (case drain eng (feed_slice s avail_in inbuffer) of
               None \<Rightarrow> None
             | Some (Crashed f) \<Rightarrow> Some (Crashed f)
             | Some (Aborted r s') \<Rightarrow> Some (Aborted r s')
             | Some (Finished s') \<Rightarrow>
                 if ret s' \<noteq> Z_STREAM_END
                 then feed_loop eng (link_node s') remainder' srcidx'
                 else Some (Finished s')))"
  by pat_completeness auto
termination
  by (relation "measure (\<lambda>(eng, s, remainder, srcidx). remainder)")
     (auto simp: next_slice_def CHUNK_def split: if_splits)

declare feed_loop.simps [simp del]

section \<open>Assembling the result\<close>

text \<open>
  The loop \<^verbatim>\<open>while (outdata)\<close> over the chain: each node's \<^verbatim>\<open>len\<close> bytes are copied to
  \<^verbatim>\<open>*outmsg + outmsgidx\<close>, then its block and the node itself are freed. The result is
  \<^verbatim>\<open>*outmsg\<close> and the nodes that are still allocated when the loop ends.
\<close>

fun copy_chain :: "ll_buffer list \<Rightarrow> byte list \<Rightarrow> nat \<Rightarrow> fault + byte list \<times> ll_buffer list" where
  "copy_chain [] outmsg outmsgidx = Inr (outmsg, [])"
| "copy_chain (node # rest) outmsg outmsgidx =
     (case data node of
        None \<Rightarrow>
          if len node = 0 then copy_chain rest outmsg (outmsgidx + len node)
          else Inl NullPointer
      | Some block \<Rightarrow>
          (case memcpy outmsg outmsgidx block (len node) of
             Inl f \<Rightarrow> Inl f
           | Inr outmsg' \<Rightarrow> copy_chain rest outmsg' (outmsgidx + len node)))"

text \<open>
  What the caller sees: the value returned, \<^verbatim>\<open>*outmsg\<close> (\<open>None\<close> when it was never
  assigned), \<^verbatim>\<open>*outlen\<close>, the global stream, the nodes of the chain that were not freed,
  and the calls made to the engine.
\<close>

record 'z dresult =
  r_status :: int
  r_outmsg :: "byte list option"
  r_outlen :: "64 word"
  r_stream :: "'z z_stream"
  r_live :: "ll_buffer list"
  r_trace :: "event list"

text \<open>
  The code after the outer loop, from \<^verbatim>\<open>outdata = head\<close> to the last \<^verbatim>\<open>return\<close>.
  \<^verbatim>\<open>*outmsg = g_malloc0 (*outlen)\<close> is a block of \<^verbatim>\<open>*outlen\<close> zero bytes; for \<^verbatim>\<open>*outlen\<close> equal to
  0 it is the null pointer, here the empty block.
\<close>

definition finish :: "'z dstate \<Rightarrow> fault + 'z dresult" where
  "finish s =
     (case copy_chain (chain s @ [outdata s]) (replicate (unat (outlen s)) 0) 0 of
        Inl f \<Rightarrow> Inl f
      | Inr (outmsg, live) \<Rightarrow>
          Inr \<lparr>r_status = (if ret s = Z_STREAM_END then Z_OK else Z_DATA_ERROR),
               r_outmsg = Some outmsg, r_outlen = outlen s, r_stream = stream s,
               r_live = live, r_trace = trace s\<rparr>)"

text \<open>
  \<^verbatim>\<open>decode_message (srcmsg, srclen, outmsg, outlen)\<close> with \<^verbatim>\<open>srclen\<close> the length of
  \<^verbatim>\<open>srcmsg\<close> (below \<open>2 ^ 31\<close>, a \<^verbatim>\<open>gint\<close>). \<open>strm\<close> is the global stream at the call,
  \<open>outlen0\<close> what \<^verbatim>\<open>*outlen\<close> holds at the call, and \<open>ret0\<close> what the local \<^verbatim>\<open>ret\<close>,
  declared without a value, holds until the first call of \<^verbatim>\<open>inflate\<close>. The result is
  \<open>None\<close> when the inner loop never ends.
\<close>

definition init_state :: "'z z_stream \<Rightarrow> 64 word \<Rightarrow> int \<Rightarrow> 'z dstate" where
  "init_state strm outlen0 ret0 =
     \<lparr>stream = strm, chain = [], outdata = new_node, outlen = outlen0, ret = ret0, trace = []\<rparr>"

definition decode_message ::
  "'z engine \<Rightarrow> 'z z_stream \<Rightarrow> byte list \<Rightarrow> 64 word \<Rightarrow> int \<Rightarrow> (fault + 'z dresult) option" where
  "decode_message eng strm srcmsg outlen0 ret0 =
     (case feed_loop eng (init_state strm outlen0 ret0) (length srcmsg) srcmsg of
        None \<Rightarrow> None
      | Some (Crashed f) \<Rightarrow> Some (Inl f)
      | Some (Aborted r s) \<Rightarrow>
          Some (Inr \<lparr>r_status = r, r_outmsg = None, r_outlen = outlen s, r_stream = stream s,
                     r_live = chain s @ [outdata s], r_trace = trace s\<rparr>)
      | Some (Finished s) \<Rightarrow> Some (finish s))"

section \<open>The caller\<close>

text \<open>
  \<^verbatim>\<open>gst_gzdec_process_data (buf)\<close>: \<open>p_decoded\<close> and \<open>p_decodedlen\<close> are what is wrapped
  into the output buffer, \<open>p_data\<close> is the mapped input \<^verbatim>\<open>info.data\<close> when the function
  returns. The value returned by \<^verbatim>\<open>decode_message\<close> is dropped.
\<close>

record 'z presult =
  p_decoded :: "byte list option"
  p_decodedlen :: "64 word"
  p_data :: "byte list"
  p_stream :: "'z z_stream"

definition gst_gzdec_process_data ::
  "'z engine \<Rightarrow> 'z z_stream \<Rightarrow> byte list \<Rightarrow> int \<Rightarrow> (fault + 'z presult) option" where
  "gst_gzdec_process_data eng strm buf ret0 =
     (case decode_message eng strm buf 0 ret0 of
        None \<Rightarrow> None
      | Some (Inl f) \<Rightarrow> Some (Inl f)
      | Some (Inr r) \<Rightarrow>
          Some (Inr \<lparr>p_decoded = r_outmsg r, p_decodedlen = r_outlen r,
                     p_data = replicate (length buf) 0xff, p_stream = r_stream r\<rparr>))"

section \<open>A small engine to run the program on\<close>

text \<open>
  A stand-in for zlib with the same interface: bytes \<open>1\<close> to \<open>252\<close> decode to themselves,
  \<open>0\<close> ends the stream, \<open>255\<close> is corrupt data, \<open>254\<close> asks for a dictionary and \<open>253\<close>
  stands for a failed allocation. The internal state says whether the end of the stream was
  reached; from then on every call returns \<^verbatim>\<open>Z_STREAM_END\<close>, and after \<^verbatim>\<open>inflateEnd\<close> every
  call returns \<^verbatim>\<open>Z_STREAM_ERROR\<close>.
\<close>

datatype toy_state = Running | Ended | Closed

definition toy_inflate :: "toy_state \<Rightarrow> byte list \<Rightarrow> nat \<Rightarrow> int \<times> toy_state \<times> nat \<times> byte list" where
  "toy_inflate z inp n =
     (case z of
        Closed \<Rightarrow> (Z_STREAM_ERROR, Closed, 0, [])
      | Ended \<Rightarrow> (Z_STREAM_END, Ended, 0, [])
      | Running \<Rightarrow>
          (let lit = takeWhile (\<lambda>b. 0 < b \<and> b < 253) inp;
               out = take n lit
           in if length out < length lit then (Z_OK, Running, length out, out)
              else case drop (length lit) inp of
                     [] \<Rightarrow> (if out = [] then Z_BUF_ERROR else Z_OK, Running, length out, out)
                   | c # _ \<Rightarrow>
                       if c = 0 then (Z_STREAM_END, Ended, length out + 1, out)
                       else if c = 254 then (Z_NEED_DICT, Running, length out, out)
                       else if c = 253 then (Z_MEM_ERROR, Running, length out, out)
                       else (Z_DATA_ERROR, Running, length out, out)))"

definition toy :: "toy_state engine" where
  "toy = \<lparr>zinflate = toy_inflate, zinflateEnd = (\<lambda>z. Closed)\<rparr>"

definition toy_stream :: "toy_state z_stream" where
  "toy_stream = \<lparr>next_in = [], avail_out = 0, zstate = Running\<rparr>"

text \<open>
  A second stand-in, for runs in which the answers of the engine are given: the internal
  state is the list of the answers still to come (return code, bytes consumed, bytes
  written).
\<close>

definition scripted :: "(int \<times> nat \<times> byte list) list engine" where
  "scripted =
     \<lparr>zinflate = (\<lambda>script inp n.
          case script of
            [] \<Rightarrow> (Z_BUF_ERROR, [], 0, [])
          | (r, consumed, bs) # rest \<Rightarrow> (r, rest, consumed, bs)),
      zinflateEnd = (\<lambda>script. [])\<rparr>"

section \<open>Notions used in the statements\<close>

text \<open>The return codes on which the \<^verbatim>\<open>switch\<close> of the inner loop returns.\<close>

definition is_fatal :: "int \<Rightarrow> bool" where
  "is_fatal r \<longleftrightarrow> r = Z_NEED_DICT \<or> r = Z_DATA_ERROR \<or> r = Z_MEM_ERROR \<or> r = Z_STREAM_ERROR"

text \<open>The bytes a node holds: the first \<open>len\<close> bytes of its block.\<close>

definition node_bytes :: "ll_buffer \<Rightarrow> byte list" where
  "node_bytes node = (case data node of None \<Rightarrow> [] | Some block \<Rightarrow> take (len node) block)"

text \<open>All bytes the engine wrote during the calls of a trace, in order.\<close>

fun decoded :: "event list \<Rightarrow> byte list" where
  "decoded [] = []"
| "decoded (Inflate r bs # es) = bs @ decoded es"
| "decoded (e # es) = decoded es"

text \<open>
  A node as the loops leave it: at most \<^const>\<open>CHUNK\<close> bytes, in a block of \<^const>\<open>CHUNK\<close> bytes,
  or no block and no bytes.
\<close>

definition node_ok :: "ll_buffer \<Rightarrow> bool" where
  "node_ok node \<longleftrightarrow>
     (case data node of None \<Rightarrow> len node = 0
      | Some block \<Rightarrow> length block = CHUNK \<and> len node \<le> CHUNK)"

text \<open>
  An event after which both loops go on: a slice was fed, or \<^verbatim>\<open>inflate\<close> returned a code
  that is not fatal and, when it left room in the output buffer, is not \<^verbatim>\<open>Z_STREAM_END\<close>.
\<close>

fun quiet :: "event \<Rightarrow> bool" where
  "quiet (Feed n) = True"
| "quiet (Inflate r bs) =
     (\<not> is_fatal r \<and> length bs \<le> CHUNK \<and> \<not> (r = Z_STREAM_END \<and> length bs < CHUNK))"
| "quiet InflateEnd = False"

text \<open>What holds whenever the inner loop starts a pass (\<open>ol\<close> is \<^verbatim>\<open>*outlen\<close> at the call).\<close>

definition pass_inv :: "64 word \<Rightarrow> 'z dstate \<Rightarrow> bool" where
  "pass_inv ol s \<longleftrightarrow>
     outdata s = new_node \<and>
     outlen s = ol + of_nat (length (decoded (trace s))) \<and>
     concat (map node_bytes (chain s)) = decoded (trace s) \<and>
     list_all node_ok (chain s) \<and>
     list_all quiet (trace s)"

text \<open>What holds whenever the outer loop starts a pass on an input of \<open>n0\<close> bytes.\<close>

definition feed_inv :: "64 word \<Rightarrow> nat \<Rightarrow> 'z dstate \<Rightarrow> nat \<Rightarrow> bool" where
  "feed_inv ol n0 s remainder \<longleftrightarrow>
     pass_inv ol s \<and> (trace s = [] \<longrightarrow> remainder = n0) \<and>
     (trace s \<noteq> [] \<longrightarrow> ret s \<noteq> Z_STREAM_END)"

text \<open>What holds when the outer loop has ended.\<close>

definition final_inv :: "64 word \<Rightarrow> 'z dstate \<Rightarrow> bool" where
  "final_inv ol s \<longleftrightarrow>
     outlen s = ol + of_nat (length (decoded (trace s))) \<and>
     concat (map node_bytes (chain s @ [outdata s])) = decoded (trace s) \<and>
     list_all node_ok (chain s @ [outdata s]) \<and>
     (list_all quiet (trace s) \<and> (trace s \<noteq> [] \<longrightarrow> ret s \<noteq> Z_STREAM_END) \<or>
      (\<exists>t bs. trace s = t @ [Inflate Z_STREAM_END bs] \<and> list_all quiet t \<and>
         length bs < CHUNK \<and> ret s = Z_STREAM_END))"

text \<open>The state after a pass of the inner loop that returns, and after one that does not.\<close>

definition step_abort :: "'z engine \<Rightarrow> 'z dstate \<Rightarrow> int \<Rightarrow> byte list \<Rightarrow> 'z z_stream \<Rightarrow> 'z dstate" where
  "step_abort eng s r bs strm =
     s\<lparr>stream := inflateEnd eng strm,
       outdata := \<lparr>data = Some (replicate CHUNK 0), len = 0\<rparr>,
       ret := (if r = Z_NEED_DICT then Z_DATA_ERROR else r),
       trace := trace s @ [Inflate r bs, InflateEnd]\<rparr>"

definition step_ok :: "'z dstate \<Rightarrow> int \<Rightarrow> byte list \<Rightarrow> 'z z_stream \<Rightarrow> 'z dstate" where
  "step_ok s r bs strm =
     s\<lparr>stream := strm,
       outdata := \<lparr>data = Some (bs @ replicate (CHUNK - length bs) 0), len = length bs\<rparr>,
       outlen := outlen s + of_nat (length bs), ret := r,
       trace := trace s @ [Inflate r bs]\<rparr>"

text \<open>
  What it means that the engine decodes the stream \<open>I\<close> to the bytes \<open>X\<close>. \<open>R z i j\<close> says
  that in the internal state \<open>z\<close> the engine has consumed \<open>i\<close> bytes of \<open>I\<close> and written \<open>j\<close>
  bytes of \<open>X\<close>. A call that is given the next bytes of \<open>I\<close>, as many as the caller likes, and
  room for \<open>n\<close> bytes consumes some of them, writes the next bytes of \<open>X\<close> and is not fatal; it
  returns \<^verbatim>\<open>Z_STREAM_END\<close> only when all of \<open>X\<close> is written; and when it leaves room in the
  output buffer without returning \<^verbatim>\<open>Z_STREAM_END\<close>, it has consumed all it was given and \<open>I\<close>
  goes on.
\<close>

definition decodes :: "'z engine \<Rightarrow> ('z \<Rightarrow> nat \<Rightarrow> nat \<Rightarrow> bool) \<Rightarrow> byte list \<Rightarrow> byte list \<Rightarrow> bool" where
  "decodes eng R I X \<longleftrightarrow>
     I \<noteq> [] \<and>
     (\<forall>z i j inp n r z' c bs.
        R z i j \<and> take (length inp) (drop i I) = inp \<and> 0 < n \<and>
        zinflate eng z inp n = (r, z', c, bs) \<longrightarrow>
          c \<le> length inp \<and> length bs \<le> n \<and> take (length bs) (drop j X) = bs \<and>
          R z' (i + c) (j + length bs) \<and> \<not> is_fatal r \<and>
          (r = Z_STREAM_END \<longrightarrow> j + length bs = length X) \<and>
          (length bs < n \<and> r \<noteq> Z_STREAM_END \<longrightarrow> c = length inp \<and> i + c < length I))"

text \<open>
  What zlib does once it has returned \<^verbatim>\<open>Z_STREAM_END\<close>: every further call of \<^verbatim>\<open>inflate\<close>
  returns \<^verbatim>\<open>Z_STREAM_END\<close> again and writes nothing. \<open>repeats_end eng z\<close> says this of the
  engine \<open>eng\<close> in the internal state \<open>z\<close>, for the next call, whatever it is given.
\<close>

definition repeats_end :: "'z engine \<Rightarrow> 'z \<Rightarrow> bool" where
  "repeats_end eng z \<longleftrightarrow> (\<forall>inp n. \<exists>z' c. zinflate eng z inp n = (Z_STREAM_END, z', c, []))"

text \<open>How far the small engine is when it decodes \<open>X\<close> followed by the byte 0.\<close>

definition toy_at :: "byte list \<Rightarrow> toy_state \<Rightarrow> nat \<Rightarrow> nat \<Rightarrow> bool" where
  "toy_at X z i j \<longleftrightarrow>
     (z = Running \<and> i = j \<and> j \<le> length X) \<or> (z = Ended \<and> j = length X \<and> i = length X + 1)"

text \<open>
  The passes of the loops. \<open>drain_pass eng s s1\<close>: the inner loop, started in \<open>s\<close>, begins a
  pass in \<open>s1\<close>. \<open>feed_pass eng s remainder srcidx s1\<close>: the outer loop, started in \<open>s\<close> with
  \<open>remainder\<close> bytes left at \<open>srcidx\<close>, comes to a pass of the inner loop that begins in \<open>s1\<close>.
\<close>

inductive drain_pass :: "'z engine \<Rightarrow> 'z dstate \<Rightarrow> 'z dstate \<Rightarrow> bool" for eng where
  first_pass: "drain_pass eng s s"
| next_pass: "drain_pass eng s s1 \<Longrightarrow> drain_step eng s1 = More s2 \<Longrightarrow> drain_pass eng s s2"

code_pred drain_pass .

inductive feed_pass :: "'z engine \<Rightarrow> 'z dstate \<Rightarrow> nat \<Rightarrow> byte list \<Rightarrow> 'z dstate \<Rightarrow> bool" for eng where
  this_slice:
    "next_slice remainder srcidx = (avail_in, inbuffer, remainder', srcidx') \<Longrightarrow> avail_in \<noteq> 0 \<Longrightarrow>
     drain_pass eng (feed_slice s avail_in inbuffer) s1 \<Longrightarrow>
     feed_pass eng s remainder srcidx s1"
| later_slice:
    "next_slice remainder srcidx = (avail_in, inbuffer, remainder', srcidx') \<Longrightarrow> avail_in \<noteq> 0 \<Longrightarrow>
     drain eng (feed_slice s avail_in inbuffer) = Some (Finished s') \<Longrightarrow>
     ret s' \<noteq> Z_STREAM_END \<Longrightarrow>
     feed_pass eng (link_node s') remainder' srcidx' s1 \<Longrightarrow>
     feed_pass eng s remainder srcidx s1"

code_pred feed_pass .

section \<open>Basic facts\<close>

lemmas rc_defs = Z_OK_def Z_STREAM_END_def Z_NEED_DICT_def Z_STREAM_ERROR_def Z_DATA_ERROR_def
  Z_MEM_ERROR_def Z_BUF_ERROR_def

lemma CHUNK_pos: "0 < CHUNK"
  by (simp add: CHUNK_def)

lemma decoded_append [simp]: "decoded (xs @ ys) = decoded xs @ decoded ys"
  by (induction xs rule: decoded.induct) auto

lemma inflate_cases:
  obtains r bs strm' c where "inflate eng strm = (r, bs, strm')"
    and "length bs \<le> avail_out strm"
    and "avail_out strm' = avail_out strm - length bs"
    and "fst (zinflate eng (zstate strm) (next_in strm) (avail_out strm)) = r"
    and "zstate strm' = fst (snd (zinflate eng (zstate strm) (next_in strm) (avail_out strm)))"
    and "next_in strm' = drop c (next_in strm)"
proof -
  obtain r z c out where e: "zinflate eng (zstate strm) (next_in strm) (avail_out strm) = (r, z, c, out)"
    by (metis prod_cases4)
  show ?thesis
    by (rule that[of r "take (avail_out strm) out"
          "strm\<lparr>next_in := drop (min c (length (next_in strm))) (next_in strm),
                avail_out := avail_out strm - length (take (avail_out strm) out),
                zstate := z\<rparr>" "min c (length (next_in strm))"])
       (simp_all add: inflate_def e Let_def)
qed

text \<open>One pass of the inner loop on a new node.\<close>

lemma drain_step_new:
  assumes "outdata s = new_node"
    and "inflate eng ((stream s)\<lparr>avail_out := CHUNK\<rparr>) = (r, bs, strm')"
    and "length bs \<le> CHUNK" and "avail_out strm' = CHUNK - length bs"
  shows "drain_step eng s =
     (if is_fatal r then Abort (if r = Z_NEED_DICT then Z_DATA_ERROR else r) (step_abort eng s r bs strm')
      else if length bs = CHUNK then More (link_node (step_ok s r bs strm'))
      else Done (step_ok s r bs strm'))"
  using assms CHUNK_pos
  by (auto simp: drain_step_def Let_def is_fatal_def step_abort_def step_ok_def memcpy_def
      new_node_def link_node_def)

lemma drain_step_cases:
  assumes "outdata s = new_node"
  obtains (fatal) r bs strm' where "is_fatal r"
      and "drain_step eng s = Abort (if r = Z_NEED_DICT then Z_DATA_ERROR else r) (step_abort eng s r bs strm')"
      and "length bs \<le> CHUNK"
    | (again) r bs strm' where "\<not> is_fatal r" and "length bs = CHUNK"
      and "drain_step eng s = More (link_node (step_ok s r bs strm'))"
    | (last) r bs strm' where "\<not> is_fatal r" and "length bs < CHUNK"
      and "drain_step eng s = Done (step_ok s r bs strm')"
proof -
  obtain r bs strm' c where i: "inflate eng ((stream s)\<lparr>avail_out := CHUNK\<rparr>) = (r, bs, strm')"
    and l: "length bs \<le> CHUNK" and a: "avail_out strm' = CHUNK - length bs"
    by (rule inflate_cases[of eng "(stream s)\<lparr>avail_out := CHUNK\<rparr>"]) auto
  note st = drain_step_new[OF assms i l a]
  show ?thesis
  proof (cases "is_fatal r")
    case True
    then show ?thesis using st l by (intro fatal[of r bs strm']) simp_all
  next
    case nf: False
    show ?thesis
    proof (cases "length bs = CHUNK")
      case True
      then show ?thesis using st nf by (intro again[of r bs strm']) simp_all
    next
      case False
      then show ?thesis using st nf l by (intro last[of r bs strm']) simp_all
    qed
  qed
qed

section \<open>Loop rules\<close>

text \<open>
  If the inner loop returns, its result is that of a last pass, made in a state that satisfies
  every invariant of the passes before.
\<close>

lemma drain_final_aux:
  assumes "drain eng s = Some y"
    and "\<And>e s s'. I e s \<Longrightarrow> drain_step e s = More s' \<Longrightarrow> I e s'"
  shows "I eng s \<longrightarrow> (\<exists>s1. I eng s1 \<and> drain_step eng s1 =
            (case y of Crashed f \<Rightarrow> Crash f | Aborted r s' \<Rightarrow> Abort r s' | Finished s' \<Rightarrow> Done s'))"
proof (rule drain.raw_induct[where P = "\<lambda>eng s y. I eng s \<longrightarrow> (\<exists>s1. I eng s1 \<and> drain_step eng s1 =
            (case y of Crashed f \<Rightarrow> Crash f | Aborted r s' \<Rightarrow> Abort r s' | Finished s' \<Rightarrow> Done s'))",
            OF _ assms(1)])
  fix d :: "'a engine \<Rightarrow> 'a dstate \<Rightarrow> 'a outcome option" and e s y
  assume IH: "\<And>e s y. d e s = Some y \<Longrightarrow> I e s \<longrightarrow> (\<exists>s1. I e s1 \<and> drain_step e s1 =
            (case y of Crashed f \<Rightarrow> Crash f | Aborted r s' \<Rightarrow> Abort r s' | Finished s' \<Rightarrow> Done s'))"
    and eq: "(case drain_step e s of Crash f \<Rightarrow> Some (Crashed f) | Abort r s' \<Rightarrow> Some (Aborted r s')
               | More s' \<Rightarrow> d e s' | Done s' \<Rightarrow> Some (Finished s')) = Some y"
  show "I e s \<longrightarrow> (\<exists>s1. I e s1 \<and> drain_step e s1 =
            (case y of Crashed f \<Rightarrow> Crash f | Aborted r s' \<Rightarrow> Abort r s' | Finished s' \<Rightarrow> Done s'))"
  proof
    assume i: "I e s"
    show "\<exists>s1. I e s1 \<and> drain_step e s1 =
            (case y of Crashed f \<Rightarrow> Crash f | Aborted r s' \<Rightarrow> Abort r s' | Finished s' \<Rightarrow> Done s')"
    proof (cases "drain_step e s")
      case (More s')
      with eq have "d e s' = Some y" by simp
      moreover have "I e s'" using assms(2) i More by blast
      ultimately show ?thesis using IH by blast
    qed (use eq i in auto)
  qed
qed

lemma drain_final:
  assumes "drain eng s = Some y" and "I s"
    and "\<And>s s'. I s \<Longrightarrow> drain_step eng s = More s' \<Longrightarrow> I s'"
  obtains s1 where "I s1" and "drain_step eng s1 =
            (case y of Crashed f \<Rightarrow> Crash f | Aborted r s' \<Rightarrow> Abort r s' | Finished s' \<Rightarrow> Done s')"
  using drain_final_aux[of eng s y "\<lambda>e s. e = eng \<and> I s"] assms by blast

text \<open>The same for the outer loop: its result comes from a last pass.\<close>

lemma feed_loop_final_aux:
  assumes step: "\<And>e s rem idx a inb rem' idx' s'.
      \<lbrakk>J e s rem idx; next_slice rem idx = (a, inb, rem', idx'); a \<noteq> 0;
       drain e (feed_slice s a inb) = Some (Finished s'); ret s' \<noteq> Z_STREAM_END\<rbrakk>
      \<Longrightarrow> J e (link_node s') rem' idx'"
  shows "feed_loop eng s rem idx = Some y \<Longrightarrow> J eng s rem idx \<Longrightarrow>
     (\<exists>s1 rem1 idx1 a inb rem' idx'. J eng s1 rem1 idx1 \<and> next_slice rem1 idx1 = (a, inb, rem', idx') \<and>
        (if a = 0 then y = Finished (s1\<lparr>stream := (stream s1)\<lparr>next_in := []\<rparr>\<rparr>)
         else drain eng (feed_slice s1 a inb) = Some y \<and>
              (\<forall>s'. y = Finished s' \<longrightarrow> ret s' = Z_STREAM_END)))"
proof (induction eng s rem idx rule: feed_loop.induct)
  case (1 eng s rem idx)
  obtain a inb rem' idx' where ns: "next_slice rem idx = (a, inb, rem', idx')"
    by (metis prod_cases4)
  show ?case
  proof (cases "a = 0")
    case True
    with 1(2) ns have "y = Finished (s\<lparr>stream := (stream s)\<lparr>next_in := []\<rparr>\<rparr>)"
      by (simp add: feed_loop.simps)
    with 1(3) ns True show ?thesis by force
  next
    case False
    from 1(2) ns False obtain y' where d: "drain eng (feed_slice s a inb) = Some y'"
      by (auto simp: feed_loop.simps split: option.splits)
    show ?thesis
    proof (cases "\<exists>s'. y' = Finished s' \<and> ret s' \<noteq> Z_STREAM_END")
      case True
      then obtain s' where y': "y' = Finished s'" and r: "ret s' \<noteq> Z_STREAM_END" by blast
      from 1(2) ns False d y' r have rec: "feed_loop eng (link_node s') rem' idx' = Some y"
        by (simp add: feed_loop.simps)
      from d y' have d': "drain eng (feed_slice s a inb) = Some (Finished s')" by simp
      have "J eng (link_node s') rem' idx'"
        by (rule step[OF 1(3) ns \<open>a \<noteq> 0\<close> d' r])
      from 1(1)[OF ns[symmetric] refl refl False d y' r rec this] show ?thesis .
    next
      case False
      with 1(2) ns \<open>a \<noteq> 0\<close> d have "y = y'"
        by (cases y') (auto simp: feed_loop.simps split: if_splits)
      with False d ns 1(3) \<open>a \<noteq> 0\<close> show ?thesis by force
    qed
  qed
qed

lemma feed_loop_final:
  assumes "feed_loop eng s rem idx = Some y" and "J s rem idx"
    and "\<And>s rem idx a inb rem' idx' s'.
      \<lbrakk>J s rem idx; next_slice rem idx = (a, inb, rem', idx'); a \<noteq> 0;
       drain eng (feed_slice s a inb) = Some (Finished s'); ret s' \<noteq> Z_STREAM_END\<rbrakk>
      \<Longrightarrow> J (link_node s') rem' idx'"
  obtains s1 rem1 idx1 a inb rem' idx' where "J s1 rem1 idx1"
    and "next_slice rem1 idx1 = (a, inb, rem', idx')"
    and "a = 0 \<Longrightarrow> y = Finished (s1\<lparr>stream := (stream s1)\<lparr>next_in := []\<rparr>\<rparr>)"
    and "a \<noteq> 0 \<Longrightarrow> drain eng (feed_slice s1 a inb) = Some y"
    and "\<And>s'. a \<noteq> 0 \<Longrightarrow> y = Finished s' \<Longrightarrow> ret s' = Z_STREAM_END"
proof -
  have "\<exists>s1 rem1 idx1 a inb rem' idx'. (eng = eng \<and> J s1 rem1 idx1) \<and> next_slice rem1 idx1 = (a, inb, rem', idx') \<and>
        (if a = 0 then y = Finished (s1\<lparr>stream := (stream s1)\<lparr>next_in := []\<rparr>\<rparr>)
         else drain eng (feed_slice s1 a inb) = Some y \<and>
              (\<forall>s'. y = Finished s' \<longrightarrow> ret s' = Z_STREAM_END))"
    by (rule feed_loop_final_aux[where J = "\<lambda>e s rem idx. e = eng \<and> J s rem idx", OF _ assms(1)])
       (use assms(2,3) in auto)
  then obtain s1 rem1 idx1 a inb rem' idx' where "J s1 rem1 idx1"
    "next_slice rem1 idx1 = (a, inb, rem', idx')"
    "if a = 0 then y = Finished (s1\<lparr>stream := (stream s1)\<lparr>next_in := []\<rparr>\<rparr>)
         else drain eng (feed_slice s1 a inb) = Some y \<and>
              (\<forall>s'. y = Finished s' \<longrightarrow> ret s' = Z_STREAM_END)"
    by blast
  then show ?thesis
    by (intro that[of s1 rem1 idx1 a inb rem' idx']) (auto split: if_splits)
qed

section \<open>Invariants of the loops\<close>

lemma node_bytes_new [simp]: "node_bytes new_node = []"
  by (simp add: node_bytes_def new_node_def)

lemma node_ok_new [simp]: "node_ok new_node"
  by (simp add: node_ok_def new_node_def)

lemma node_bytes_filled [simp]:
  "node_bytes \<lparr>data = Some (bs @ replicate (CHUNK - length bs) 0), len = length bs\<rparr> = bs"
  by (simp add: node_bytes_def)

lemma node_ok_filled [simp]:
  "length bs \<le> CHUNK \<Longrightarrow> node_ok \<lparr>data = Some (bs @ replicate (CHUNK - length bs) 0), len = length bs\<rparr>"
  by (simp add: node_ok_def)

lemma step_ok_simps [simp]:
  "stream (step_ok s r bs strm) = strm"
  "chain (step_ok s r bs strm) = chain s"
  "outdata (step_ok s r bs strm) = \<lparr>data = Some (bs @ replicate (CHUNK - length bs) 0), len = length bs\<rparr>"
  "outlen (step_ok s r bs strm) = outlen s + of_nat (length bs)"
  "ret (step_ok s r bs strm) = r"
  "trace (step_ok s r bs strm) = trace s @ [Inflate r bs]"
  by (simp_all add: step_ok_def)

lemma step_abort_simps [simp]:
  "stream (step_abort eng s r bs strm) = inflateEnd eng strm"
  "chain (step_abort eng s r bs strm) = chain s"
  "outdata (step_abort eng s r bs strm) = \<lparr>data = Some (replicate CHUNK 0), len = 0\<rparr>"
  "outlen (step_abort eng s r bs strm) = outlen s"
  "ret (step_abort eng s r bs strm) = (if r = Z_NEED_DICT then Z_DATA_ERROR else r)"
  "trace (step_abort eng s r bs strm) = trace s @ [Inflate r bs, InflateEnd]"
  by (simp_all add: step_abort_def)

lemma link_node_simps [simp]:
  "stream (link_node s) = stream s"
  "chain (link_node s) = chain s @ [outdata s]"
  "outdata (link_node s) = new_node"
  "outlen (link_node s) = outlen s"
  "ret (link_node s) = ret s"
  "trace (link_node s) = trace s"
  by (simp_all add: link_node_def)

lemma feed_slice_simps [simp]:
  "stream (feed_slice s a inb) = (stream s)\<lparr>next_in := take a inb\<rparr>"
  "chain (feed_slice s a inb) = chain s"
  "outdata (feed_slice s a inb) = outdata s"
  "outlen (feed_slice s a inb) = outlen s"
  "ret (feed_slice s a inb) = ret s"
  "trace (feed_slice s a inb) = trace s @ [Feed a]"
  by (simp_all add: feed_slice_def)

lemma pass_inv_link:
  assumes "pass_inv ol s" and "\<not> is_fatal r" and "length bs \<le> CHUNK"
    and "r = Z_STREAM_END \<Longrightarrow> length bs = CHUNK"
  shows "pass_inv ol (link_node (step_ok s r bs strm))"
  using assms by (auto simp: pass_inv_def)

lemma pass_inv_feed: "pass_inv ol s \<Longrightarrow> pass_inv ol (feed_slice s a inb)"
  by (simp add: pass_inv_def)

lemma pass_inv_more:
  assumes "pass_inv ol s" and "drain_step eng s = More s'"
  shows "pass_inv ol s'"
proof -
  from assms(1) have n: "outdata s = new_node" by (simp add: pass_inv_def)
  show ?thesis
    using assms by (cases rule: drain_step_cases[OF n, of eng]) (auto intro: pass_inv_link)
qed

lemma pass_inv_trace_more:
  assumes "pass_inv ol s" and "drain_step eng s = More s'" and "trace s \<noteq> []"
  shows "trace s' \<noteq> []"
proof -
  from assms(1) have n: "outdata s = new_node" by (simp add: pass_inv_def)
  show ?thesis
    using assms by (cases rule: drain_step_cases[OF n, of eng]) auto
qed

lemma drain_result:
  assumes "drain eng s = Some y" and "pass_inv ol s" and "trace s \<noteq> []"
  obtains (fatal) s1 r bs strm where "pass_inv ol s1" and "trace s1 \<noteq> []" and "is_fatal r" and "length bs \<le> CHUNK"
      and "y = Aborted (if r = Z_NEED_DICT then Z_DATA_ERROR else r) (step_abort eng s1 r bs strm)"
    | (last) s1 r bs strm where "pass_inv ol s1" and "trace s1 \<noteq> []" and "\<not> is_fatal r" and "length bs < CHUNK"
      and "y = Finished (step_ok s1 r bs strm)"
proof -
  obtain s1 where i: "pass_inv ol s1 \<and> trace s1 \<noteq> []"
    and d: "drain_step eng s1 =
            (case y of Crashed f \<Rightarrow> Crash f | Aborted r s' \<Rightarrow> Abort r s' | Finished s' \<Rightarrow> Done s')"
  proof (rule drain_final[OF assms(1), of "\<lambda>s. pass_inv ol s \<and> trace s \<noteq> []"])
    show "pass_inv ol s \<and> trace s \<noteq> []" using assms(2,3) by simp
    show "pass_inv ol s' \<and> trace s' \<noteq> []"
      if "pass_inv ol s \<and> trace s \<noteq> []" and "drain_step eng s = More s'" for s s'
      using that pass_inv_more[of ol s eng s'] pass_inv_trace_more[of ol s eng s'] by simp
  qed
  from i have n: "outdata s1 = new_node" by (simp add: pass_inv_def)
  from n show ?thesis
  proof (cases rule: drain_step_cases[where eng = eng])
    case (fatal r bs strm')
    with d i show ?thesis by (cases y) (auto intro: that(1))
  next
    case (again r bs strm')
    with d show ?thesis by (cases y) auto
  next
    case (last r bs strm')
    with d i show ?thesis by (cases y) (auto intro: that(2))
  qed
qed

lemma next_slice_zero:
  "next_slice rem idx = (a, inb, rem', idx') \<Longrightarrow> a = 0 \<longleftrightarrow> rem = 0"
  using CHUNK_pos by (auto simp: next_slice_def split: if_splits)

lemma feed_inv_step:
  assumes "feed_inv ol n0 s rem" and "a \<noteq> 0"
    and "drain eng (feed_slice s a inb) = Some (Finished s')" and "ret s' \<noteq> Z_STREAM_END"
  shows "feed_inv ol n0 (link_node s') rem'"
proof -
  from assms(1) have p: "pass_inv ol (feed_slice s a inb)" and t: "trace (feed_slice s a inb) \<noteq> []"
    by (simp_all add: feed_inv_def pass_inv_feed)
  from assms(3) p t show ?thesis
  proof (cases rule: drain_result)
    case (fatal s1 r bs strm)
    then show ?thesis by simp
  next
    case (last s1 r bs strm)
    with assms(4) have "pass_inv ol (link_node (step_ok s1 r bs strm))"
      by (intro pass_inv_link) auto
    with last assms(4) show ?thesis by (simp add: feed_inv_def)
  qed
qed

lemma final_inv_break:
  assumes "pass_inv ol s" and "trace s \<noteq> [] \<longrightarrow> ret s \<noteq> Z_STREAM_END"
  shows "final_inv ol (s\<lparr>stream := strm\<rparr>)"
  using assms by (auto simp: final_inv_def pass_inv_def)

lemma final_inv_end:
  assumes "pass_inv ol s" and "length bs < CHUNK" and "\<not> is_fatal r"
  shows "final_inv ol (step_ok s r bs strm)"
  using assms by (cases "r = Z_STREAM_END") (auto simp: final_inv_def pass_inv_def)

lemma feed_loop_result:
  assumes "feed_loop eng s rem idx = Some y" and "feed_inv ol n0 s rem"
  obtains (fatal) s1 r bs strm where "pass_inv ol s1" and "trace s1 \<noteq> []" and "is_fatal r"
      and "length bs \<le> CHUNK"
      and "y = Aborted (if r = Z_NEED_DICT then Z_DATA_ERROR else r) (step_abort eng s1 r bs strm)"
    | (finished) sf where "y = Finished sf" and "final_inv ol sf" and "n0 \<noteq> 0 \<Longrightarrow> trace sf \<noteq> []"
proof -
  obtain s1 rem1 idx1 a inb rem' idx' where j: "feed_inv ol n0 s1 rem1"
    and ns: "next_slice rem1 idx1 = (a, inb, rem', idx')"
    and brk: "a = 0 \<Longrightarrow> y = Finished (s1\<lparr>stream := (stream s1)\<lparr>next_in := []\<rparr>\<rparr>)"
    and drn: "a \<noteq> 0 \<Longrightarrow> drain eng (feed_slice s1 a inb) = Some y"
    and fin: "\<And>s'. a \<noteq> 0 \<Longrightarrow> y = Finished s' \<Longrightarrow> ret s' = Z_STREAM_END"
  proof (rule feed_loop_final[OF assms(1), of "\<lambda>s rem idx. feed_inv ol n0 s rem"])
    show "feed_inv ol n0 s rem" by (rule assms(2))
  qed (auto intro: feed_inv_step)
  show ?thesis
  proof (cases "a = 0")
    case True
    with next_slice_zero[OF ns] have r0: "rem1 = 0" by simp
    have "final_inv ol (s1\<lparr>stream := (stream s1)\<lparr>next_in := []\<rparr>\<rparr>)"
      using j by (intro final_inv_break) (simp_all add: feed_inv_def)
    moreover have "n0 \<noteq> 0 \<Longrightarrow> trace (s1\<lparr>stream := (stream s1)\<lparr>next_in := []\<rparr>\<rparr>) \<noteq> []"
      using j r0 by (auto simp: feed_inv_def)
    ultimately show ?thesis using brk[OF True]
      by (intro finished[of "s1\<lparr>stream := (stream s1)\<lparr>next_in := []\<rparr>\<rparr>"]) auto
  next
    case False
    from j have p: "pass_inv ol (feed_slice s1 a inb)" and t: "trace (feed_slice s1 a inb) \<noteq> []"
      by (simp_all add: feed_inv_def pass_inv_feed)
    from drn[OF False] p t show ?thesis
    proof (cases rule: drain_result)
      case (fatal s2 r bs strm)
      then show ?thesis using that(1) by blast
    next
      case (last s2 r bs strm)
      then show ?thesis
        by (intro finished[of "step_ok s2 r bs strm"]) (auto intro: final_inv_end)
    qed
  qed
qed

section \<open>The final copy\<close>

lemma node_bytes_length: "node_ok node \<Longrightarrow> length (node_bytes node) = len node"
  by (auto simp: node_ok_def node_bytes_def split: option.splits)

lemma copy_chain_ok:
  assumes "list_all node_ok nodes"
    and "idx + length (concat (map node_bytes nodes)) \<le> length buf"
  shows "copy_chain nodes buf idx =
           Inr (take idx buf @ concat (map node_bytes nodes) @
                drop (idx + length (concat (map node_bytes nodes))) buf, [])"
  using assms
proof (induction nodes arbitrary: buf idx)
  case Nil
  then show ?case by simp
next
  case (Cons node rest)
  from Cons.prems have ok: "node_ok node" and oks: "list_all node_ok rest" by simp_all
  note l = node_bytes_length[OF ok]
  show ?case
  proof (cases "data node")
    case None
    with ok have z: "len node = 0" "node_bytes node = []"
      by (simp_all add: node_ok_def node_bytes_def)
    with None Cons.IH[OF oks, of idx buf] Cons.prems(2) show ?thesis by simp
  next
    case (Some block)
    with ok have b: "length block = CHUNK" "len node \<le> CHUNK" "node_bytes node = take (len node) block"
      by (simp_all add: node_ok_def node_bytes_def)
    show ?thesis
    proof (cases "len node = 0")
      case True
      with Some b Cons.IH[OF oks, of idx buf] Cons.prems(2) show ?thesis
        by (simp add: memcpy_def)
    next
      case False
      let ?buf' = "take idx buf @ take (len node) block @ drop (idx + len node) buf"
      from Cons.prems(2) l have fit: "idx + len node \<le> length buf" by simp
      with False b have m: "memcpy buf idx block (len node) = Inr ?buf'"
        by (simp add: memcpy_def)
      from fit b have len': "length ?buf' = length buf" by simp
      have pre: "idx + len node + length (concat (map node_bytes rest)) \<le> length ?buf'"
        using Cons.prems(2) l len' by simp
      have tk: "take (idx + len node) ?buf' = take idx buf @ take (len node) block"
        using fit b by simp
      have dr: "drop (idx + len node + k) ?buf' = drop (idx + len node + k) buf" for k
        using fit b by (simp add: add.commute)
      from Cons.IH[OF oks pre] Some m tk dr b l show ?thesis
        by (simp add: add.assoc)
    qed
  qed
qed

lemma copy_chain_overflow:
  assumes "list_all node_ok nodes" and "idx \<le> length buf"
    and "length buf < idx + length (concat (map node_bytes nodes))"
  shows "copy_chain nodes buf idx = Inl HeapOverflow"
  using assms
proof (induction nodes arbitrary: buf idx)
  case Nil
  then show ?case by simp
next
  case (Cons node rest)
  from Cons.prems have ok: "node_ok node" and oks: "list_all node_ok rest" by simp_all
  note l = node_bytes_length[OF ok]
  show ?case
  proof (cases "data node")
    case None
    with ok have z: "len node = 0" "node_bytes node = []"
      by (simp_all add: node_ok_def node_bytes_def)
    with None Cons.IH[OF oks, of idx buf] Cons.prems(2,3) show ?thesis by simp
  next
    case (Some block)
    with ok have b: "length block = CHUNK" "len node \<le> CHUNK" "node_bytes node = take (len node) block"
      by (simp_all add: node_ok_def node_bytes_def)
    show ?thesis
    proof (cases "len node = 0")
      case True
      with Some b Cons.IH[OF oks, of idx buf] Cons.prems(2,3) show ?thesis
        by (simp add: memcpy_def)
    next
      case nz: False
      show ?thesis
      proof (cases "length buf < idx + len node")
        case True
        with nz Some show ?thesis by (simp add: memcpy_def)
      next
        case False
        let ?buf' = "take idx buf @ take (len node) block @ drop (idx + len node) buf"
        from False have fit: "idx + len node \<le> length buf" by simp
        with nz b have m: "memcpy buf idx block (len node) = Inr ?buf'"
          by (simp add: memcpy_def)
        from fit b have len': "length ?buf' = length buf" by simp
        have "copy_chain rest ?buf' (idx + len node) = Inl HeapOverflow"
          using Cons.prems(3) l len' fit by (intro Cons.IH[OF oks]) simp_all
        with Some m show ?thesis by simp
      qed
    qed
  qed
qed

lemma unat_no_wrap:
  fixes ol :: "64 word"
  assumes "T \<le> unat (ol + of_nat T)"
  shows "unat (ol + of_nat T) = unat ol + T"
proof -
  let ?M = "2 ^ 64 :: nat"
  have u: "unat (ol + of_nat T) = (unat ol + T mod ?M) mod ?M"
    by (simp add: unat_word_ariths unat_of_nat)
  have lt: "unat (ol + of_nat T) < ?M" "unat ol < ?M"
    using unsigned_less[of "ol + of_nat T", where 'a = nat] unsigned_less[of ol, where 'a = nat]
    by simp_all
  with assms have T: "T < ?M" by linarith
  then have u': "unat (ol + of_nat T) = (unat ol + T) mod ?M"
    using u by simp
  show ?thesis
  proof (cases "unat ol + T < ?M")
    case True
    then show ?thesis using u' by simp
  next
    case False
    then have "(unat ol + T) mod ?M = unat ol + T - ?M"
      using lt T by (simp add: mod_if)
    with u' assms lt T False show ?thesis by linarith
  qed
qed

lemma final_inv_length:
  assumes "final_inv ol s"
  shows "length (concat (map node_bytes (chain s @ [outdata s]))) = length (decoded (trace s))"
  using assms by (simp add: final_inv_def)

lemma finish_returns:
  assumes "final_inv ol s" and "length (decoded (trace s)) \<le> unat (outlen s)"
  shows "finish s = Inr \<lparr>r_status = (if ret s = Z_STREAM_END then Z_OK else Z_DATA_ERROR),
            r_outmsg = Some (decoded (trace s) @ replicate (unat ol) 0),
            r_outlen = outlen s, r_stream = stream s, r_live = [], r_trace = trace s\<rparr>"
    and "unat (outlen s) = unat ol + length (decoded (trace s))"
proof -
  from assms(1) have o: "outlen s = ol + of_nat (length (decoded (trace s)))"
    and c: "concat (map node_bytes (chain s @ [outdata s])) = decoded (trace s)"
    and ok: "list_all node_ok (chain s @ [outdata s])"
    by (simp_all add: final_inv_def)
  from assms(2) o show u: "unat (outlen s) = unat ol + length (decoded (trace s))"
    using unat_no_wrap[of "length (decoded (trace s))" ol] by simp
  have "copy_chain (chain s @ [outdata s]) (replicate (unat (outlen s)) 0) 0 =
          Inr (take 0 (replicate (unat (outlen s)) 0) @ concat (map node_bytes (chain s @ [outdata s])) @
               drop (0 + length (concat (map node_bytes (chain s @ [outdata s]))))
                 (replicate (unat (outlen s)) 0), [])"
    by (rule copy_chain_ok[OF ok]) (use c assms(2) in simp)
  then have "copy_chain (chain s @ [outdata s]) (replicate (unat (outlen s)) 0) 0 =
          Inr (decoded (trace s) @ replicate (unat ol) 0, [])"
    unfolding c using u by simp
  then show "finish s = Inr \<lparr>r_status = (if ret s = Z_STREAM_END then Z_OK else Z_DATA_ERROR),
            r_outmsg = Some (decoded (trace s) @ replicate (unat ol) 0),
            r_outlen = outlen s, r_stream = stream s, r_live = [], r_trace = trace s\<rparr>"
    by (simp add: finish_def)
qed

lemma finish_overflows:
  assumes "final_inv ol s" and "unat (outlen s) < length (decoded (trace s))"
  shows "finish s = Inl HeapOverflow"
proof -
  from assms(1) have c: "concat (map node_bytes (chain s @ [outdata s])) = decoded (trace s)"
    and ok: "list_all node_ok (chain s @ [outdata s])"
    by (simp_all add: final_inv_def)
  have "copy_chain (chain s @ [outdata s]) (replicate (unat (outlen s)) 0) 0 = Inl HeapOverflow"
    by (rule copy_chain_overflow[OF ok]) (use c assms(2) in simp_all)
  then show ?thesis by (simp add: finish_def)
qed

lemma init_feed_inv: "feed_inv ol n0 (init_state strm ol r0) n0"
  by (simp add: feed_inv_def pass_inv_def init_state_def)

text \<open>Every way in which a call of \<open>decode_message\<close> can return.\<close>

lemma decode_message_cases:
  fixes eng :: "'z engine"
  assumes "decode_message eng strm src ol r0 = Some res"
  obtains (fatal) s1 :: "'z dstate" and r bs strm' where "pass_inv ol s1" and "trace s1 \<noteq> []" and "is_fatal r"
      and "length bs \<le> CHUNK"
      and "res = Inr \<lparr>r_status = (if r = Z_NEED_DICT then Z_DATA_ERROR else r), r_outmsg = None,
             r_outlen = outlen s1, r_stream = inflateEnd eng strm',
             r_live = chain s1 @ [\<lparr>data = Some (replicate CHUNK 0), len = 0\<rparr>],
             r_trace = trace s1 @ [Inflate r bs, InflateEnd]\<rparr>"
    | (overrun) sf where "feed_loop eng (init_state strm ol r0) (length src) src = Some (Finished sf)"
      and "final_inv ol sf" and "unat (outlen sf) < length (decoded (trace sf))"
      and "res = Inl HeapOverflow"
    | (returned) sf where "feed_loop eng (init_state strm ol r0) (length src) src = Some (Finished sf)"
      and "final_inv ol sf" and "src \<noteq> [] \<Longrightarrow> trace sf \<noteq> []"
      and "unat (outlen sf) = unat ol + length (decoded (trace sf))"
      and "res = Inr \<lparr>r_status = (if ret sf = Z_STREAM_END then Z_OK else Z_DATA_ERROR),
            r_outmsg = Some (decoded (trace sf) @ replicate (unat ol) 0),
            r_outlen = outlen sf, r_stream = stream sf, r_live = [], r_trace = trace sf\<rparr>"
proof -
  from assms obtain y where f: "feed_loop eng (init_state strm ol r0) (length src) src = Some y"
    by (auto simp: decode_message_def split: option.splits)
  from f init_feed_inv[of ol "length src" strm r0] show ?thesis
  proof (cases rule: feed_loop_result)
    case (fatal s1 r bs strm')
    with assms f show ?thesis
      by (intro that(1)[of s1 r bs strm']) (auto simp: decode_message_def)
  next
    case (finished sf)
    from assms f finished(1) have res: "res = finish sf" by (simp add: decode_message_def)
    show ?thesis
    proof (cases "length (decoded (trace sf)) \<le> unat (outlen sf)")
      case True
      from finish_returns[OF finished(2) True] res f finished show ?thesis
        by (intro that(3)[of sf]) auto
    next
      case False
      then have "unat (outlen sf) < length (decoded (trace sf))" by simp
      from finish_overflows[OF finished(2) this] this res f finished show ?thesis
        by (intro that(2)[of sf]) auto
    qed
  qed
qed

section \<open>Running the program\<close>

lemmas run_simps = decode_message_def init_state_def feed_loop.simps next_slice_def feed_slice_def
  link_node_def drain.simps drain_step_def inflate_def inflateEnd_def memcpy_def finish_def
  new_node_def gst_gzdec_process_data_def
  toy_def toy_inflate_def toy_stream_def scripted_def rc_defs

section \<open>The empty input\<close>

text \<open>
  C2, as the code has it. For the empty input (\<^verbatim>\<open>srclen == 0\<close>) the outer loop stops in its
  first pass: \<^verbatim>\<open>inflate\<close> is never called, the chain is the head node alone, without a
  block, \<^verbatim>\<open>*outlen\<close> keeps its value, \<^verbatim>\<open>*outmsg\<close> is a zeroed buffer of \<^verbatim>\<open>*outlen\<close> bytes
  (empty when \<^verbatim>\<open>*outlen\<close> was 0), and the head node is freed. Nothing is said about the
  value returned: it is computed from \<^verbatim>\<open>ret\<close>, which was never assigned.
\<close>

theorem empty_input_decodes_nothing:
  "feed_loop eng (init_state strm ol r0) 0 [] =
     Some (Finished ((init_state strm ol r0)\<lparr>stream := strm\<lparr>next_in := []\<rparr>\<rparr>)) \<and>
   chain (init_state strm ol r0) = [] \<and> outdata (init_state strm ol r0) = new_node \<and>
   data new_node = None \<and>
   (\<exists>rr. decode_message eng strm [] ol r0 = Some (Inr rr) \<and> r_trace rr = [] \<and>
      r_outmsg rr = Some (replicate (unat ol) 0) \<and> r_outlen rr = ol \<and> r_live rr = [] \<and>
      r_stream rr = strm\<lparr>next_in := []\<rparr>)"
  by (simp add: decode_message_def init_state_def feed_loop.simps next_slice_def finish_def
      new_node_def CHUNK_def)

text \<open>
  C2 as stated fails: on the empty input, with \<^verbatim>\<open>ret\<close> holding 0 when it is read, the value
  returned is \<^verbatim>\<open>Z_DATA_ERROR\<close>, not success.
\<close>

theorem empty_input_not_success:
  "decode_message toy toy_stream [] 0 Z_OK =
     Some (Inr \<lparr>r_status = Z_DATA_ERROR, r_outmsg = Some [], r_outlen = 0,
                r_stream = toy_stream, r_live = [], r_trace = []\<rparr>)"
  by (simp add: run_simps CHUNK_def)

section \<open>The input buffer\<close>

text \<open>
  C5 at a failing input. \<^verbatim>\<open>gst_gzdec_process_data\<close> maps the buffer with \<^verbatim>\<open>GST_MAP_READ\<close> and
  hands it to \<^verbatim>\<open>decode_message\<close> as \<^verbatim>\<open>const guchar *\<close>, then overwrites it: on the two
  bytes 1, 0 the mapped input holds 255, 255 when the function returns.
\<close>

theorem process_data_overwrites_input:
  "gst_gzdec_process_data toy toy_stream [1, 0] 0 =
     Some (Inr \<lparr>p_decoded = Some [1], p_decodedlen = 1, p_data = [255, 255],
                p_stream = \<lparr>next_in = [], avail_out = CHUNK - 1, zstate = Ended\<rparr>\<rparr>)"
  by (simp add: run_simps CHUNK_def)

text \<open>The same for every engine and every buffer.\<close>

lemma process_data_input_after:
  assumes "gst_gzdec_process_data eng strm buf r0 = Some (Inr p)"
  shows "p_data p = replicate (length buf) 255"
  using assms by (auto simp: gst_gzdec_process_data_def split: option.splits sum.splits)

section \<open>Fragments after a fatal return\<close>

text \<open>
  C6 at a failing input. On corrupt data the function returns from inside the inner loop:
  the head node and its block of \<^const>\<open>CHUNK\<close> bytes are still allocated, and \<^verbatim>\<open>*outmsg\<close> was
  never assigned.
\<close>

theorem fatal_return_leaks_chain:
  "decode_message toy toy_stream [255] 0 0 =
     Some (Inr \<lparr>r_status = Z_DATA_ERROR, r_outmsg = None, r_outlen = 0,
                r_stream = \<lparr>next_in = [255], avail_out = CHUNK, zstate = Closed\<rparr>,
                r_live = [\<lparr>data = Some (replicate CHUNK 0), len = 0\<rparr>],
                r_trace = [Feed 1, Inflate Z_DATA_ERROR [], InflateEnd]\<rparr>)"
  by (simp add: run_simps CHUNK_def)

text \<open>
  Every return from inside the inner loop leaves the whole chain allocated; every return
  from the end of the function leaves none of it.
\<close>

lemma live_after_return:
  assumes "decode_message eng strm src ol r0 = Some (Inr rr)"
  shows "if r_outmsg rr = None then r_live rr \<noteq> [] else r_live rr = []"
  using assms by (cases rule: decode_message_cases) auto

section \<open>The passes of the loops\<close>

lemma drain_pass_same:
  assumes "drain_pass eng s s1"
  shows "drain eng s = drain eng s1"
  using assms
proof (induction rule: drain_pass.induct)
  case (first_pass s)
  show ?case ..
next
  case (next_pass s s1 s2)
  have "drain eng s1 = drain eng s2"
    using next_pass.hyps(2) by (subst drain.simps) simp
  with next_pass.IH show ?case by simp
qed

lemma feed_pass_result:
  assumes "feed_pass eng s rem idx s1" and "drain eng s1 = Some y"
    and "\<And>sf. y = Finished sf \<Longrightarrow> ret sf = Z_STREAM_END"
  shows "feed_loop eng s rem idx = Some y"
  using assms
proof (induction rule: feed_pass.induct)
  case (this_slice rem idx a inb rem' idx' s s1)
  from drain_pass_same[OF this_slice(3)] this_slice(4)
  have "drain eng (feed_slice s a inb) = Some y" by simp
  with this_slice(1,2,5) show ?case
    by (subst feed_loop.simps) (auto split: outcome.splits)
next
  case (later_slice rem idx a inb rem' idx' s s' s1)
  from later_slice(1-4) have "feed_loop eng s rem idx = feed_loop eng (link_node s') rem' idx'"
    by (subst feed_loop.simps) simp
  with later_slice.IH[OF later_slice.prems] show ?case by simp
qed

lemma drain_pass_inv:
  assumes "drain_pass eng s s1" and "pass_inv ol s" and "trace s \<noteq> []"
  shows "pass_inv ol s1 \<and> trace s1 \<noteq> []"
  using assms
proof (induction rule: drain_pass.induct)
  case (first_pass s)
  then show ?case by simp
next
  case (next_pass s s1 s2)
  then show ?case
    using pass_inv_more[of ol s1 eng s2] pass_inv_trace_more[of ol s1 eng s2] by simp
qed

lemma feed_pass_inv:
  assumes "feed_pass eng s rem idx s1" and "feed_inv ol n0 s rem"
  shows "pass_inv ol s1 \<and> trace s1 \<noteq> []"
  using assms
proof (induction rule: feed_pass.induct)
  case (this_slice rem idx a inb rem' idx' s s1)
  from this_slice(4) have "pass_inv ol (feed_slice s a inb)" "trace (feed_slice s a inb) \<noteq> []"
    by (simp_all add: feed_inv_def pass_inv_feed)
  with drain_pass_inv[OF this_slice(3)] show ?case by simp
next
  case (later_slice rem idx a inb rem' idx' s s' s1)
  from feed_inv_step[OF later_slice.prems later_slice(2,3,4)]
  have "feed_inv ol n0 (link_node s') rem'" .
  then show ?case by (rule later_slice.IH)
qed

lemma unat_plus_of_nat:
  fixes ol :: "64 word"
  assumes "unat ol + T < 2 ^ 64"
  shows "unat (ol + of_nat T) = unat ol + T"
proof -
  from assms have "T < 2 ^ 64" by simp
  then have "unat (of_nat T :: 64 word) = T" by (simp add: unat_of_nat)
  with assms show ?thesis by (simp add: unat_word_ariths)
qed

section \<open>Fatal return codes\<close>

lemma split_at_loud:
  assumes "pre @ x # post = t @ ys" and "list_all P t" and "\<not> P x"
  shows "\<exists>pre'. pre = t @ pre' \<and> pre' @ x # post = ys"
proof -
  from assms(1) obtain us where
    "pre = t @ us \<and> us @ x # post = ys \<or> pre @ us = t \<and> x # post = us @ ys"
    by (auto simp: append_eq_append_conv2)
  then show ?thesis
  proof
    assume "pre = t @ us \<and> us @ x # post = ys"
    then show ?thesis by blast
  next
    assume a: "pre @ us = t \<and> x # post = us @ ys"
    show ?thesis
    proof (cases us)
      case Nil
      with a show ?thesis by simp
    next
      case (Cons u us')
      with a have "x \<in> set t" by auto
      with assms(2,3) show ?thesis by (simp add: list_all_iff)
    qed
  qed
qed

lemma split_two:
  assumes "pre @ x # post = [a, b]"
  shows "pre = [] \<and> x = a \<and> post = [b] \<or> pre = [a] \<and> x = b \<and> post = []"
proof (cases pre)
  case Nil
  with assms show ?thesis by simp
next
  case (Cons p ps)
  with assms show ?thesis by (cases ps) auto
qed

lemma split_one:
  assumes "pre @ x # post = [a]"
  shows "pre = [] \<and> x = a \<and> post = []"
  using assms by (cases pre) auto

lemma is_fatal_not_ok: "is_fatal r \<Longrightarrow> (if r = Z_NEED_DICT then Z_DATA_ERROR else r) \<noteq> Z_OK"
  by (auto simp: is_fatal_def rc_defs)

lemma not_fatal_end [simp]: "\<not> is_fatal Z_STREAM_END"
  by (simp add: is_fatal_def rc_defs)

text \<open>
  C4. Whenever a pass of the inner loop, in whatever slice, gets a fatal code from \<^verbatim>\<open>inflate\<close>
  (\<^verbatim>\<open>Z_NEED_DICT\<close>, \<^verbatim>\<open>Z_DATA_ERROR\<close>, \<^verbatim>\<open>Z_MEM_ERROR\<close> or \<^verbatim>\<open>Z_STREAM_ERROR\<close>), \<^verbatim>\<open>decode_message\<close>
  returns at once: \<^verbatim>\<open>inflateEnd\<close> releases the internal state of the session and is the last
  thing asked of the engine, so no further slice is fed; the value returned is the fatal code,
  \<^verbatim>\<open>Z_NEED_DICT\<close> as \<^verbatim>\<open>Z_DATA_ERROR\<close>, and never \<^verbatim>\<open>Z_OK\<close>.
\<close>

theorem fatal_inflate_aborts:
  assumes "feed_pass eng (init_state strm ol r0) (length src) src s1"
    and "inflate eng ((stream s1)\<lparr>avail_out := CHUNK\<rparr>) = (r, bs, strm')" and "is_fatal r"
  shows "decode_message eng strm src ol r0 =
           Some (Inr \<lparr>r_status = (if r = Z_NEED_DICT then Z_DATA_ERROR else r), r_outmsg = None,
                      r_outlen = outlen s1, r_stream = inflateEnd eng strm',
                      r_live = chain s1 @ [\<lparr>data = Some (replicate CHUNK 0), len = 0\<rparr>],
                      r_trace = trace s1 @ [Inflate r bs, InflateEnd]\<rparr>) \<and>
         (if r = Z_NEED_DICT then Z_DATA_ERROR else r) \<noteq> Z_OK \<and>
         zstate (inflateEnd eng strm') = zinflateEnd eng (zstate strm')"
proof -
  from feed_pass_inv[OF assms(1) init_feed_inv] have n: "outdata s1 = new_node"
    by (simp add: pass_inv_def)
  obtain r2 bs2 strm2 c where i: "inflate eng ((stream s1)\<lparr>avail_out := CHUNK\<rparr>) = (r2, bs2, strm2)"
    and l: "length bs2 \<le> avail_out ((stream s1)\<lparr>avail_out := CHUNK\<rparr>)"
    and a: "avail_out strm2 = avail_out ((stream s1)\<lparr>avail_out := CHUNK\<rparr>) - length bs2"
    by (rule inflate_cases[of eng "(stream s1)\<lparr>avail_out := CHUNK\<rparr>"])
  from i assms(2) have e: "r2 = r" "bs2 = bs" "strm2 = strm'" by simp_all
  from drain_step_new[OF n assms(2)] l a e assms(3)
  have "drain_step eng s1 =
          Abort (if r = Z_NEED_DICT then Z_DATA_ERROR else r) (step_abort eng s1 r bs strm')"
    by simp
  then have "drain eng s1 =
          Some (Aborted (if r = Z_NEED_DICT then Z_DATA_ERROR else r) (step_abort eng s1 r bs strm'))"
    by (subst drain.simps) simp
  from feed_pass_result[OF assms(1) this]
  have "feed_loop eng (init_state strm ol r0) (length src) src =
          Some (Aborted (if r = Z_NEED_DICT then Z_DATA_ERROR else r) (step_abort eng s1 r bs strm'))"
    by simp
  then show ?thesis
    using is_fatal_not_ok[OF assms(3)] by (simp add: decode_message_def inflateEnd_def)
qed

text \<open>
  A run of C4 over two slices: \<open>CHUNK\<close> literal bytes and a corrupt one. The first slice
  takes two passes; the pass of the second slice gets \<^verbatim>\<open>Z_DATA_ERROR\<close>.
\<close>

theorem fatal_inflate_aborts_witness:
  "\<exists>s1. feed_pass toy (init_state toy_stream 0 0) (length (replicate CHUNK (1 :: byte) @ [255]))
       (replicate CHUNK 1 @ [255]) s1 \<and>
     inflate toy ((stream s1)\<lparr>avail_out := CHUNK\<rparr>) =
       (Z_DATA_ERROR, [], \<lparr>next_in = [255], avail_out = CHUNK, zstate = Running\<rparr>) \<and>
     is_fatal Z_DATA_ERROR \<and>
     decode_message toy toy_stream (replicate CHUNK 1 @ [255]) 0 0 =
       Some (Inr \<lparr>r_status = Z_DATA_ERROR, r_outmsg = None, r_outlen = of_nat CHUNK,
                  r_stream = \<lparr>next_in = [255], avail_out = CHUNK, zstate = Closed\<rparr>,
                  r_live = [\<lparr>data = Some (replicate CHUNK 1), len = CHUNK\<rparr>,
                            \<lparr>data = Some (replicate CHUNK 0), len = 0\<rparr>,
                            \<lparr>data = Some (replicate CHUNK 0), len = 0\<rparr>],
                  r_trace = [Feed CHUNK, Inflate Z_OK (replicate CHUNK 1), Inflate Z_BUF_ERROR [],
                             Feed 1, Inflate Z_DATA_ERROR [], InflateEnd]\<rparr>)"
proof -
  let ?s0 = "init_state toy_stream 0 0"
  let ?src = "replicate CHUNK (1 :: byte) @ [255]"
  let ?sa = "\<lparr>stream = \<lparr>next_in = [], avail_out = CHUNK, zstate = Running\<rparr>,
      chain = [\<lparr>data = Some (replicate CHUNK 1), len = CHUNK\<rparr>],
      outdata = \<lparr>data = Some (replicate CHUNK 0), len = 0\<rparr>,
      outlen = of_nat CHUNK, ret = Z_BUF_ERROR,
      trace = [Feed CHUNK, Inflate Z_OK (replicate CHUNK 1), Inflate Z_BUF_ERROR []]\<rparr>
     :: toy_state dstate"
  let ?s1 = "feed_slice (link_node ?sa) 1 (255 # replicate (CHUNK - 1) 0)"
  have ns1: "next_slice (length ?src) ?src = (CHUNK, replicate CHUNK 1, 1, [255])"
    by (simp add: next_slice_def)
  have d1: "drain toy (feed_slice ?s0 CHUNK (replicate CHUNK 1)) = Some (Finished ?sa)"
    by (simp add: run_simps CHUNK_def)
  have ns2: "next_slice 1 [255] = (1, 255 # replicate (CHUNK - 1) 0, 0, [255])"
    by (simp add: next_slice_def CHUNK_def)
  have "feed_pass toy (link_node ?sa) 1 [255] ?s1"
    by (rule this_slice[OF ns2 _ first_pass]) simp
  then have p: "feed_pass toy ?s0 (length ?src) ?src ?s1"
    by (rule later_slice[OF ns1 _ d1, rotated 2]) (simp_all add: CHUNK_def rc_defs)
  have i: "inflate toy ((stream ?s1)\<lparr>avail_out := CHUNK\<rparr>) =
       (Z_DATA_ERROR, [], \<lparr>next_in = [255], avail_out = CHUNK, zstate = Running\<rparr>)"
    by (simp add: run_simps CHUNK_def)
  have f: "is_fatal Z_DATA_ERROR" by (simp add: is_fatal_def)
  from fatal_inflate_aborts[OF p i f] have
    "decode_message toy toy_stream ?src 0 0 =
       Some (Inr \<lparr>r_status = Z_DATA_ERROR, r_outmsg = None, r_outlen = of_nat CHUNK,
                  r_stream = \<lparr>next_in = [255], avail_out = CHUNK, zstate = Closed\<rparr>,
                  r_live = [\<lparr>data = Some (replicate CHUNK 1), len = CHUNK\<rparr>,
                            \<lparr>data = Some (replicate CHUNK 0), len = 0\<rparr>,
                            \<lparr>data = Some (replicate CHUNK 0), len = 0\<rparr>],
                  r_trace = [Feed CHUNK, Inflate Z_OK (replicate CHUNK 1), Inflate Z_BUF_ERROR [],
                             Feed 1, Inflate Z_DATA_ERROR [], InflateEnd]\<rparr>)"
    by (simp add: run_simps rc_defs)
  with p i f show ?thesis by blast
qed

text \<open>
  The same seen from the result: in every call that has returned, a fatal code was the last
  answer of \<^verbatim>\<open>inflate\<close>, and only \<^verbatim>\<open>inflateEnd\<close> came after it.
\<close>

lemma fatal_call_is_last:
  assumes "decode_message eng strm src ol r0 = Some (Inr rr)"
    and "r_trace rr = pre @ Inflate r bs # post" and "is_fatal r"
  shows "post = [InflateEnd] \<and> list_all quiet pre \<and>
         r_status rr = (if r = Z_NEED_DICT then Z_DATA_ERROR else r) \<and> r_status rr \<noteq> Z_OK \<and>
         r_outmsg rr = None \<and> (\<exists>z. zstate (r_stream rr) = zinflateEnd eng z)"
  using assms(1)
proof (cases rule: decode_message_cases)
  case (fatal s1 r' bs' strm')
  from fatal(1) have q: "list_all quiet (trace s1)" by (simp add: pass_inv_def)
  from assms(3) have nq: "\<not> quiet (Inflate r bs)" by simp
  from fatal(5) assms(2) have "pre @ Inflate r bs # post = trace s1 @ [Inflate r' bs', InflateEnd]"
    by simp
  from split_at_loud[OF this q nq] obtain pre' where
    p: "pre = trace s1 @ pre'" and e: "pre' @ Inflate r bs # post = [Inflate r' bs', InflateEnd]"
    by blast
  from split_two[OF e] have "pre' = [] \<and> r = r' \<and> post = [InflateEnd]"
    by auto
  with p q fatal(5) is_fatal_not_ok[OF assms(3)] show ?thesis
    by (auto simp: inflateEnd_def)
next
  case (overrun sf)
  then show ?thesis by simp
next
  case (returned sf)
  from assms(3) have nq: "\<not> quiet (Inflate r bs)" by simp
  from returned(5) assms(2) have t: "trace sf = pre @ Inflate r bs # post" by simp
  from returned(2) have "list_all quiet (trace sf) \<or>
      (\<exists>t bs'. trace sf = t @ [Inflate Z_STREAM_END bs'] \<and> list_all quiet t)"
    by (auto simp: final_inv_def)
  then show ?thesis
  proof
    assume "list_all quiet (trace sf)"
    with t nq show ?thesis by simp
  next
    assume "\<exists>t bs'. trace sf = t @ [Inflate Z_STREAM_END bs'] \<and> list_all quiet t"
    then obtain t' bs' where t': "trace sf = t' @ [Inflate Z_STREAM_END bs']" and q: "list_all quiet t'"
      by blast
    from t t' have "pre @ Inflate r bs # post = t' @ [Inflate Z_STREAM_END bs']" by simp
    from split_at_loud[OF this q nq] obtain pre' where
      "pre' @ Inflate r bs # post = [Inflate Z_STREAM_END bs']" by blast
    from split_one[OF this] have "r = Z_STREAM_END" by simp
    with assms(3) show ?thesis by simp
  qed
qed

section \<open>The end of the stream\<close>

text \<open>
  A pass of the inner loop that fills the output buffer is followed by another pass on the
  same slice.
\<close>

lemma feed_pass_more:
  assumes "feed_pass eng s rem idx s1" and "drain_step eng s1 = More s2"
  shows "feed_pass eng s rem idx s2"
  using assms
proof (induction rule: feed_pass.induct)
  case (this_slice rem idx a inb rem' idx' s s1)
  from next_pass[OF this_slice(3) this_slice(4)]
  have "drain_pass eng (feed_slice s a inb) s2" .
  from feed_pass.this_slice[OF this_slice(1,2) this] show ?case .
next
  case (later_slice rem idx a inb rem' idx' s s' s1)
  from later_slice.IH[OF later_slice.prems]
  have "feed_pass eng (link_node s') rem' idx' s2" .
  from feed_pass.later_slice[OF later_slice(1-4) this] show ?case .
qed

text \<open>
  The loops look at the code of a call once the call has left room in the output buffer
  (lines 316 and 322). A pass that gets \<^verbatim>\<open>Z_STREAM_END\<close> with room left ends both of them:
  it is the last call of \<^verbatim>\<open>inflate\<close>, and the function returns \<^verbatim>\<open>Z_OK\<close>.
\<close>

lemma stream_end_with_room:
  assumes "feed_pass eng (init_state strm ol r0) (length src) src s1"
    and "inflate eng ((stream s1)\<lparr>avail_out := CHUNK\<rparr>) = (Z_STREAM_END, bs, strm')"
    and "length bs < CHUNK"
    and "unat ol + length (decoded (trace s1)) + length bs < 2 ^ 64"
  shows "decode_message eng strm src ol r0 =
           Some (Inr \<lparr>r_status = Z_OK,
                      r_outmsg = Some (decoded (trace s1) @ bs @ replicate (unat ol) 0),
                      r_outlen = outlen s1 + of_nat (length bs), r_stream = strm',
                      r_live = [], r_trace = trace s1 @ [Inflate Z_STREAM_END bs]\<rparr>)"
proof -
  from feed_pass_inv[OF assms(1) init_feed_inv] have p: "pass_inv ol s1"
    and n: "outdata s1 = new_node"
    by (simp_all add: pass_inv_def)
  obtain r2 bs2 strm2 c where i: "inflate eng ((stream s1)\<lparr>avail_out := CHUNK\<rparr>) = (r2, bs2, strm2)"
    and l: "length bs2 \<le> avail_out ((stream s1)\<lparr>avail_out := CHUNK\<rparr>)"
    and a: "avail_out strm2 = avail_out ((stream s1)\<lparr>avail_out := CHUNK\<rparr>) - length bs2"
    by (rule inflate_cases[of eng "(stream s1)\<lparr>avail_out := CHUNK\<rparr>"])
  from i assms(2) have e: "r2 = Z_STREAM_END" "bs2 = bs" "strm2 = strm'" by simp_all
  let ?sf = "step_ok s1 Z_STREAM_END bs strm'"
  from drain_step_new[OF n assms(2)] l a e assms(3)
  have "drain_step eng s1 = Done ?sf" by simp
  then have "drain eng s1 = Some (Finished ?sf)"
    by (subst drain.simps) simp
  from feed_pass_result[OF assms(1) this]
  have f: "feed_loop eng (init_state strm ol r0) (length src) src = Some (Finished ?sf)"
    by simp
  have fi: "final_inv ol ?sf"
    using p assms(3) by (intro final_inv_end) simp_all
  then have o: "outlen ?sf = ol + of_nat (length (decoded (trace ?sf)))"
    by (simp add: final_inv_def)
  have u: "unat (ol + of_nat (length (decoded (trace ?sf)))) = unat ol + length (decoded (trace ?sf))"
    using assms(4) by (intro unat_plus_of_nat) (simp add: add.assoc)
  have fit: "length (decoded (trace ?sf)) \<le> unat (outlen ?sf)"
    unfolding o u by (rule le_add2)
  from finish_returns(1)[OF fi fit] f show ?thesis
    by (simp add: decode_message_def)
qed

text \<open>
  C9. Whenever a pass of the inner loop, in whatever slice, gets \<^verbatim>\<open>Z_STREAM_END\<close> from
  \<^verbatim>\<open>inflate\<close>, no further slice is fed, whatever is left of the input, and \<^verbatim>\<open>decode_message\<close>
  returns \<^verbatim>\<open>Z_OK\<close> with the bytes decoded up to there (as long as \<^verbatim>\<open>*outlen\<close>, which counts them
  in 64 bits, has not wrapped around). When the call left room in the output buffer, it is the
  last call of \<^verbatim>\<open>inflate\<close>. When it filled the output buffer exactly, the inner loop makes one
  more pass on the same slice before any code is looked at (line 316 tests \<^verbatim>\<open>avail_out\<close>
  alone). The engine is zlib, which then returns \<^verbatim>\<open>Z_STREAM_END\<close> again without output; this
  is assumed of the engine, for that case only, and that second call is the last one.
\<close>

theorem stream_end_stops_feeding:
  assumes "feed_pass eng (init_state strm ol r0) (length src) src s1"
    and "inflate eng ((stream s1)\<lparr>avail_out := CHUNK\<rparr>) = (Z_STREAM_END, bs, strm')"
    and "length bs = CHUNK \<longrightarrow> repeats_end eng (zstate strm')"
    and "unat ol + length (decoded (trace s1)) + length bs < 2 ^ 64"
  shows "decode_message eng strm src ol r0 =
           Some (Inr \<lparr>r_status = Z_OK,
                      r_outmsg = Some (decoded (trace s1) @ bs @ replicate (unat ol) 0),
                      r_outlen = outlen s1 + of_nat (length bs),
                      r_stream = (if length bs = CHUNK
                                  then snd (snd (inflate eng (strm'\<lparr>avail_out := CHUNK\<rparr>)))
                                  else strm'),
                      r_live = [],
                      r_trace = trace s1 @ Inflate Z_STREAM_END bs #
                                  (if length bs = CHUNK then [Inflate Z_STREAM_END []] else [])\<rparr>)"
proof -
  obtain r2 bs2 strm2 c where i: "inflate eng ((stream s1)\<lparr>avail_out := CHUNK\<rparr>) = (r2, bs2, strm2)"
    and l: "length bs2 \<le> avail_out ((stream s1)\<lparr>avail_out := CHUNK\<rparr>)"
    and a: "avail_out strm2 = avail_out ((stream s1)\<lparr>avail_out := CHUNK\<rparr>) - length bs2"
    by (rule inflate_cases[of eng "(stream s1)\<lparr>avail_out := CHUNK\<rparr>"])
  from i assms(2) have e: "r2 = Z_STREAM_END" "bs2 = bs" "strm2 = strm'" by simp_all
  show ?thesis
  proof (cases "length bs = CHUNK")
    case False
    with l e have "length bs < CHUNK" by simp
    from stream_end_with_room[OF assms(1,2) this assms(4)] False show ?thesis by simp
  next
    case True
    from feed_pass_inv[OF assms(1) init_feed_inv] have n: "outdata s1 = new_node"
      by (simp add: pass_inv_def)
    let ?s2 = "link_node (step_ok s1 Z_STREAM_END bs strm')"
    let ?strm2 = "snd (snd (inflate eng (strm'\<lparr>avail_out := CHUNK\<rparr>)))"
    from drain_step_new[OF n assms(2)] l a e True
    have "drain_step eng s1 = More ?s2" by simp
    from feed_pass_more[OF assms(1) this]
    have p2: "feed_pass eng (init_state strm ol r0) (length src) src ?s2" .
    from assms(3) True have "repeats_end eng (zstate strm')" by simp
    then obtain z' c' where "zinflate eng (zstate strm') (next_in strm') CHUNK = (Z_STREAM_END, z', c', [])"
      unfolding repeats_end_def by blast
    then have "inflate eng (strm'\<lparr>avail_out := CHUNK\<rparr>) = (Z_STREAM_END, [], ?strm2)"
      by (simp add: inflate_def)
    then have i2: "inflate eng ((stream ?s2)\<lparr>avail_out := CHUNK\<rparr>) = (Z_STREAM_END, [], ?strm2)"
      by simp
    have l2: "length ([] :: byte list) < CHUNK" by (simp add: CHUNK_def)
    have w2: "unat ol + length (decoded (trace ?s2)) + length ([] :: byte list) < 2 ^ 64"
      using assms(4) by simp
    from stream_end_with_room[OF p2 i2 l2 w2] True show ?thesis by simp
  qed
qed

text \<open>
  Two runs of C9, both on an input of \<open>CHUNK + 2\<close> bytes, two slices, of which only the first
  is fed. In the first run the stream ends at the second byte and the call of \<^verbatim>\<open>inflate\<close>
  leaves room in the output buffer. In the second run the engine returns \<^verbatim>\<open>Z_STREAM_END\<close> with
  exactly \<open>CHUNK\<close> bytes, so that the output buffer is full, and returns it again, without
  output, when it is called once more.
\<close>

theorem stream_end_stops_feeding_witness:
  "(\<exists>s1. feed_pass toy (init_state toy_stream 0 0) (length ([1, 0] @ replicate CHUNK (5 :: byte)))
       ([1, 0] @ replicate CHUNK 5) s1 \<and>
     inflate toy ((stream s1)\<lparr>avail_out := CHUNK\<rparr>) =
       (Z_STREAM_END, [1], \<lparr>next_in = replicate (CHUNK - 2) 5, avail_out = CHUNK - 1,
                              zstate = Ended\<rparr>) \<and>
     length [1 :: byte] < CHUNK \<and>
     unat (0 :: 64 word) + length (decoded (trace s1)) + length [1 :: byte] < 2 ^ 64 \<and>
     decode_message toy toy_stream ([1, 0] @ replicate CHUNK 5) 0 0 =
       Some (Inr \<lparr>r_status = Z_OK, r_outmsg = Some [1], r_outlen = 1,
                  r_stream = \<lparr>next_in = replicate (CHUNK - 2) 5, avail_out = CHUNK - 1,
                              zstate = Ended\<rparr>,
                  r_live = [], r_trace = [Feed CHUNK, Inflate Z_STREAM_END [1]]\<rparr>)) \<and>
   (\<exists>s1. feed_pass scripted
       (init_state \<lparr>next_in = [], avail_out = 0,
                    zstate = [(Z_STREAM_END, 3, replicate CHUNK 7), (Z_STREAM_END, 0, [])]\<rparr> 0 0)
       (length (replicate (CHUNK + 2) (9 :: byte))) (replicate (CHUNK + 2) 9) s1 \<and>
     inflate scripted ((stream s1)\<lparr>avail_out := CHUNK\<rparr>) =
       (Z_STREAM_END, replicate CHUNK 7,
        \<lparr>next_in = replicate (CHUNK - 3) 9, avail_out = 0, zstate = [(Z_STREAM_END, 0, [])]\<rparr>) \<and>
     length (replicate CHUNK (7 :: byte)) = CHUNK \<and>
     repeats_end scripted [(Z_STREAM_END, 0, [])] \<and>
     unat (0 :: 64 word) + length (decoded (trace s1)) + length (replicate CHUNK (7 :: byte)) < 2 ^ 64 \<and>
     decode_message scripted
       \<lparr>next_in = [], avail_out = 0,
        zstate = [(Z_STREAM_END, 3, replicate CHUNK 7), (Z_STREAM_END, 0, [])]\<rparr>
       (replicate (CHUNK + 2) 9) 0 0 =
       Some (Inr \<lparr>r_status = Z_OK, r_outmsg = Some (replicate CHUNK 7), r_outlen = of_nat CHUNK,
                  r_stream = \<lparr>next_in = replicate (CHUNK - 3) 9, avail_out = CHUNK, zstate = []\<rparr>,
                  r_live = [],
                  r_trace = [Feed CHUNK, Inflate Z_STREAM_END (replicate CHUNK 7),
                             Inflate Z_STREAM_END []]\<rparr>))"
proof -
  have room: "\<exists>s1. feed_pass toy (init_state toy_stream 0 0) (length ([1, 0] @ replicate CHUNK (5 :: byte)))
       ([1, 0] @ replicate CHUNK 5) s1 \<and>
     inflate toy ((stream s1)\<lparr>avail_out := CHUNK\<rparr>) =
       (Z_STREAM_END, [1], \<lparr>next_in = replicate (CHUNK - 2) 5, avail_out = CHUNK - 1,
                              zstate = Ended\<rparr>) \<and>
     length [1 :: byte] < CHUNK \<and>
     unat (0 :: 64 word) + length (decoded (trace s1)) + length [1 :: byte] < 2 ^ 64 \<and>
     decode_message toy toy_stream ([1, 0] @ replicate CHUNK 5) 0 0 =
       Some (Inr \<lparr>r_status = Z_OK, r_outmsg = Some [1], r_outlen = 1,
                  r_stream = \<lparr>next_in = replicate (CHUNK - 2) 5, avail_out = CHUNK - 1,
                              zstate = Ended\<rparr>,
                  r_live = [], r_trace = [Feed CHUNK, Inflate Z_STREAM_END [1]]\<rparr>)"
  proof -
    let ?s0 = "init_state toy_stream 0 0"
    let ?src = "[1, 0] @ replicate CHUNK (5 :: byte)"
    let ?s1 = "feed_slice ?s0 CHUNK ([1, 0] @ replicate (CHUNK - 2) 5)"
    have ns: "next_slice (length ?src) ?src = (CHUNK, [1, 0] @ replicate (CHUNK - 2) 5, 2, replicate 2 5)"
      by (simp add: next_slice_def CHUNK_def)
    have p: "feed_pass toy ?s0 (length ?src) ?src ?s1"
      by (rule this_slice[OF ns _ first_pass]) (simp add: CHUNK_def)
    have i: "inflate toy ((stream ?s1)\<lparr>avail_out := CHUNK\<rparr>) =
         (Z_STREAM_END, [1], \<lparr>next_in = replicate (CHUNK - 2) 5, avail_out = CHUNK - 1,
                                zstate = Ended\<rparr>)"
      by (simp add: run_simps CHUNK_def)
    have l: "length [1 :: byte] < CHUNK" by (simp add: CHUNK_def)
    then have h: "length [1 :: byte] = CHUNK \<longrightarrow> repeats_end toy (zstate
         \<lparr>next_in = replicate (CHUNK - 2) 5, avail_out = CHUNK - 1, zstate = Ended\<rparr>)"
      by simp
    have w: "unat (0 :: 64 word) + length (decoded (trace ?s1)) + length [1 :: byte] < 2 ^ 64"
      by (simp add: init_state_def)
    from stream_end_stops_feeding[OF p i h w] l have
      "decode_message toy toy_stream ?src 0 0 =
         Some (Inr \<lparr>r_status = Z_OK, r_outmsg = Some [1], r_outlen = 1,
                    r_stream = \<lparr>next_in = replicate (CHUNK - 2) 5, avail_out = CHUNK - 1,
                                zstate = Ended\<rparr>,
                    r_live = [], r_trace = [Feed CHUNK, Inflate Z_STREAM_END [1]]\<rparr>)"
      by (simp add: init_state_def)
    with p i l w show ?thesis by blast
  qed
  have full: "\<exists>s1. feed_pass scripted
       (init_state \<lparr>next_in = [], avail_out = 0,
                    zstate = [(Z_STREAM_END, 3, replicate CHUNK 7), (Z_STREAM_END, 0, [])]\<rparr> 0 0)
       (length (replicate (CHUNK + 2) (9 :: byte))) (replicate (CHUNK + 2) 9) s1 \<and>
     inflate scripted ((stream s1)\<lparr>avail_out := CHUNK\<rparr>) =
       (Z_STREAM_END, replicate CHUNK 7,
        \<lparr>next_in = replicate (CHUNK - 3) 9, avail_out = 0, zstate = [(Z_STREAM_END, 0, [])]\<rparr>) \<and>
     length (replicate CHUNK (7 :: byte)) = CHUNK \<and>
     repeats_end scripted [(Z_STREAM_END, 0, [])] \<and>
     unat (0 :: 64 word) + length (decoded (trace s1)) + length (replicate CHUNK (7 :: byte)) < 2 ^ 64 \<and>
     decode_message scripted
       \<lparr>next_in = [], avail_out = 0,
        zstate = [(Z_STREAM_END, 3, replicate CHUNK 7), (Z_STREAM_END, 0, [])]\<rparr>
       (replicate (CHUNK + 2) 9) 0 0 =
       Some (Inr \<lparr>r_status = Z_OK, r_outmsg = Some (replicate CHUNK 7), r_outlen = of_nat CHUNK,
                  r_stream = \<lparr>next_in = replicate (CHUNK - 3) 9, avail_out = CHUNK, zstate = []\<rparr>,
                  r_live = [],
                  r_trace = [Feed CHUNK, Inflate Z_STREAM_END (replicate CHUNK 7),
                             Inflate Z_STREAM_END []]\<rparr>)"
  proof -
    let ?strm = "\<lparr>next_in = [], avail_out = 0,
                  zstate = [(Z_STREAM_END, 3, replicate CHUNK (7 :: byte)), (Z_STREAM_END, 0, [])]\<rparr>"
    let ?strm' = "\<lparr>next_in = replicate (CHUNK - 3) (9 :: byte), avail_out = 0,
                   zstate = [(Z_STREAM_END, 0 :: nat, [] :: byte list)]\<rparr>"
    let ?s0 = "init_state ?strm 0 0"
    let ?src = "replicate (CHUNK + 2) (9 :: byte)"
    let ?s1 = "feed_slice ?s0 CHUNK (replicate CHUNK 9)"
    have ns: "next_slice (length ?src) ?src = (CHUNK, replicate CHUNK 9, 2, replicate 2 9)"
      by (simp add: next_slice_def CHUNK_def)
    have p: "feed_pass scripted ?s0 (length ?src) ?src ?s1"
      by (rule this_slice[OF ns _ first_pass]) (simp add: CHUNK_def)
    have i: "inflate scripted ((stream ?s1)\<lparr>avail_out := CHUNK\<rparr>) =
         (Z_STREAM_END, replicate CHUNK 7, ?strm')"
      by (simp add: run_simps CHUNK_def)
    have l: "length (replicate CHUNK (7 :: byte)) = CHUNK" by simp
    have r: "repeats_end scripted [(Z_STREAM_END, 0, [])]"
      by (simp add: repeats_end_def scripted_def)
    then have h: "length (replicate CHUNK (7 :: byte)) = CHUNK \<longrightarrow> repeats_end scripted (zstate ?strm')"
      by simp
    have w: "unat (0 :: 64 word) + length (decoded (trace ?s1)) +
               length (replicate CHUNK (7 :: byte)) < 2 ^ 64"
      by (simp add: init_state_def CHUNK_def)
    have i2: "snd (snd (inflate scripted \<lparr>next_in = replicate (CHUNK - 3) (9 :: byte), avail_out = CHUNK,
                                         zstate = [(Z_STREAM_END, 0, [])]\<rparr>)) =
                \<lparr>next_in = replicate (CHUNK - 3) 9, avail_out = CHUNK, zstate = []\<rparr>"
      by (simp add: inflate_def scripted_def)
    from stream_end_stops_feeding[OF p i h w] have
      "decode_message scripted ?strm ?src 0 0 =
         Some (Inr \<lparr>r_status = Z_OK, r_outmsg = Some (replicate CHUNK 7), r_outlen = of_nat CHUNK,
                    r_stream = \<lparr>next_in = replicate (CHUNK - 3) 9, avail_out = CHUNK, zstate = []\<rparr>,
                    r_live = [],
                    r_trace = [Feed CHUNK, Inflate Z_STREAM_END (replicate CHUNK 7),
                               Inflate Z_STREAM_END []]\<rparr>)"
      by (simp add: init_state_def i2)
    with p i l r w show ?thesis by blast
  qed
  from room full show ?thesis by (rule conjI)
qed

text \<open>
  What is assumed of the engine is used. The code of a call that fills the output buffer is
  overwritten by the next call before any test reads it. zlib returns \<^verbatim>\<open>Z_STREAM_END\<close> again;
  an engine that returned \<^verbatim>\<open>Z_BUF_ERROR\<close> instead would be given the second slice, and the
  function would return \<^verbatim>\<open>Z_DATA_ERROR\<close>.
\<close>

lemma stream_end_not_repeated:
  "decode_message scripted
     \<lparr>next_in = [], avail_out = 0, zstate = [(Z_STREAM_END, 3, replicate CHUNK 7)]\<rparr>
     (replicate (CHUNK + 2) 9) 0 0 =
     Some (Inr \<lparr>r_status = Z_DATA_ERROR, r_outmsg = Some (replicate CHUNK 7),
                r_outlen = of_nat CHUNK,
                r_stream = \<lparr>next_in = [], avail_out = CHUNK, zstate = []\<rparr>,
                r_live = [],
                r_trace = [Feed CHUNK, Inflate Z_STREAM_END (replicate CHUNK 7),
                           Inflate Z_BUF_ERROR [], Feed 2, Inflate Z_BUF_ERROR []]\<rparr>)"
  by (simp add: run_simps CHUNK_def)

text \<open>
  The same seen from the result: in every call that has returned, a \<^verbatim>\<open>Z_STREAM_END\<close> that left
  room in the output buffer was the last answer of the engine, and the call returned \<^verbatim>\<open>Z_OK\<close>.
\<close>

lemma stream_end_call_is_last:
  assumes "decode_message eng strm src ol r0 = Some (Inr rr)"
    and "r_trace rr = pre @ Inflate Z_STREAM_END bs # post" and "length bs < CHUNK"
  shows "post = [] \<and> r_status rr = Z_OK \<and>
         r_outmsg rr = Some (decoded (r_trace rr) @ replicate (unat ol) 0)"
  using assms(1)
proof (cases rule: decode_message_cases)
  case (fatal s1 r' bs' strm')
  from fatal(1) have q: "list_all quiet (trace s1)" by (simp add: pass_inv_def)
  from assms(3) have nq: "\<not> quiet (Inflate Z_STREAM_END bs)" by simp
  from fatal(5) assms(2)
  have "pre @ Inflate Z_STREAM_END bs # post = trace s1 @ [Inflate r' bs', InflateEnd]"
    by simp
  from split_at_loud[OF this q nq] obtain pre' where
    "pre' @ Inflate Z_STREAM_END bs # post = [Inflate r' bs', InflateEnd]"
    by blast
  from split_two[OF this] have "r' = Z_STREAM_END"
    by auto
  with fatal(3) show ?thesis by simp
next
  case (overrun sf)
  then show ?thesis by simp
next
  case (returned sf)
  from assms(3) have nq: "\<not> quiet (Inflate Z_STREAM_END bs)" by simp
  from returned(5) assms(2) have t: "trace sf = pre @ Inflate Z_STREAM_END bs # post" by simp
  from returned(2) have "list_all quiet (trace sf) \<or>
      (\<exists>t bs'. trace sf = t @ [Inflate Z_STREAM_END bs'] \<and> list_all quiet t \<and> ret sf = Z_STREAM_END)"
    by (auto simp: final_inv_def)
  then show ?thesis
  proof
    assume "list_all quiet (trace sf)"
    with t nq show ?thesis by simp
  next
    assume "\<exists>t bs'. trace sf = t @ [Inflate Z_STREAM_END bs'] \<and> list_all quiet t \<and> ret sf = Z_STREAM_END"
    then obtain t' bs' where t': "trace sf = t' @ [Inflate Z_STREAM_END bs']" and q: "list_all quiet t'"
      and r: "ret sf = Z_STREAM_END"
      by blast
    from t t' have "pre @ Inflate Z_STREAM_END bs # post = t' @ [Inflate Z_STREAM_END bs']" by simp
    from split_at_loud[OF this q nq] obtain pre' where
      "pre' @ Inflate Z_STREAM_END bs # post = [Inflate Z_STREAM_END bs']" by blast
    from split_one[OF this] have "post = []" by simp
    with r returned(5) show ?thesis by simp
  qed
qed

section \<open>Input that ends before the stream does\<close>

text \<open>
  On a non-empty input, a call whose last call of \<^verbatim>\<open>inflate\<close> did not return \<^verbatim>\<open>Z_STREAM_END\<close>
  never returns \<^verbatim>\<open>Z_OK\<close>; when it comes back from the end of the function it returns
  \<^verbatim>\<open>Z_DATA_ERROR\<close>, the code it has for an incomplete stream.
\<close>

lemma nonempty_without_stream_end:
  assumes "decode_message eng strm src ol r0 = Some (Inr rr)" and "src \<noteq> []"
    and "\<And>bs. last (r_trace rr) \<noteq> Inflate Z_STREAM_END bs"
  shows "r_status rr \<noteq> Z_OK \<and> (r_outmsg rr \<noteq> None \<longrightarrow> r_status rr = Z_DATA_ERROR)"
  using assms(1)
proof (cases rule: decode_message_cases)
  case (fatal s1 r' bs' strm')
  with is_fatal_not_ok[OF fatal(3)] show ?thesis by simp
next
  case (overrun sf)
  then show ?thesis by simp
next
  case (returned sf)
  from returned(3)[OF assms(2)] have ne: "trace sf \<noteq> []" .
  from returned(2) have "ret sf \<noteq> Z_STREAM_END \<or> (\<exists>t bs'. trace sf = t @ [Inflate Z_STREAM_END bs'])"
    using ne by (auto simp: final_inv_def)
  moreover have "trace sf \<noteq> t @ [Inflate Z_STREAM_END bs']" for t bs'
    using assms(3)[of bs'] returned(5) by auto
  ultimately have "ret sf \<noteq> Z_STREAM_END" by blast
  with returned(5) show ?thesis by (simp add: rc_defs)
qed

text \<open>
  C3 at a failing input. On the empty input no slice is fed and \<^verbatim>\<open>ret\<close> is read at the last
  line without ever having been assigned. When it holds 1 there, the call returns \<^verbatim>\<open>Z_OK\<close>
  although the engine never signalled the end of the stream.
\<close>

theorem empty_input_may_succeed:
  "decode_message toy toy_stream [] 0 Z_STREAM_END =
     Some (Inr \<lparr>r_status = Z_OK, r_outmsg = Some [], r_outlen = 0,
                r_stream = toy_stream, r_live = [], r_trace = []\<rparr>)"
  by (simp add: run_simps CHUNK_def)

section \<open>The result buffer\<close>

lemma concat_node_bytes_length:
  "list_all node_ok nodes \<Longrightarrow> length (concat (map node_bytes nodes)) = sum_list (map len nodes)"
  by (induction nodes) (simp_all add: node_bytes_length)

text \<open>
  C10. \<^verbatim>\<open>decode_message\<close> adds the bytes of every call of \<^verbatim>\<open>inflate\<close> to \<^verbatim>\<open>*outlen\<close> as it
  finds it, and allocates \<^verbatim>\<open>*outmsg\<close> with that many bytes. Whenever the call comes back from
  the end of the function, the length reported is the value at entry plus the bytes decoded,
  and the buffer holds the decoded bytes followed by as many zero bytes as \<^verbatim>\<open>*outlen\<close> held at
  entry: length and buffer are right exactly when \<^verbatim>\<open>*outlen\<close> was 0, and with any other value
  the length reported exceeds the bytes decoded. (A sum that wraps around \<open>2 ^ 64\<close> makes the
  buffer too small for the copy; such a call does not come back.)
\<close>

theorem outlen_accumulates:
  assumes "decode_message eng strm src ol r0 = Some (Inr rr)" and "r_outmsg rr = Some buf"
  shows "r_outlen rr = ol + of_nat (length (decoded (r_trace rr))) \<and>
         length buf = unat (r_outlen rr) \<and>
         unat (r_outlen rr) = unat ol + length (decoded (r_trace rr)) \<and>
         buf = decoded (r_trace rr) @ replicate (unat ol) 0 \<and>
         (ol = 0 \<longrightarrow> buf = decoded (r_trace rr) \<and> unat (r_outlen rr) = length (decoded (r_trace rr))) \<and>
         (ol \<noteq> 0 \<longrightarrow> length (decoded (r_trace rr)) < unat (r_outlen rr) \<and> buf \<noteq> decoded (r_trace rr))"
  using assms(1)
proof (cases rule: decode_message_cases)
  case (fatal s1 r bs strm')
  with assms(2) show ?thesis by simp
next
  case (overrun sf)
  then show ?thesis by simp
next
  case (returned sf)
  from returned(2) have o: "outlen sf = ol + of_nat (length (decoded (trace sf)))"
    by (simp add: final_inv_def)
  have pos: "ol \<noteq> 0 \<Longrightarrow> 0 < unat ol" by (simp add: unat_gt_0)
  from returned(4,5) assms(2) o pos show ?thesis by auto
qed

text \<open>A run of C10 with \<^verbatim>\<open>*outlen\<close> at 7: three bytes decoded, ten reported.\<close>

theorem outlen_accumulates_witness:
  "\<exists>rr. decode_message toy toy_stream [4, 5, 6, 0] 7 0 = Some (Inr rr) \<and>
     r_outmsg rr = Some ([4, 5, 6] @ replicate 7 0) \<and> decoded (r_trace rr) = [4, 5, 6] \<and>
     r_outlen rr = 10 \<and> length (decoded (r_trace rr)) < unat (r_outlen rr)"
proof -
  have run: "decode_message toy toy_stream [4, 5, 6, 0] 7 0 =
     Some (Inr \<lparr>r_status = Z_OK, r_outmsg = Some ([4, 5, 6] @ replicate 7 0), r_outlen = 10,
                r_stream = \<lparr>next_in = [], avail_out = CHUNK - 3, zstate = Ended\<rparr>,
                r_live = [], r_trace = [Feed 4, Inflate Z_STREAM_END [4, 5, 6]]\<rparr>)"
    by (simp add: run_simps CHUNK_def)
  from outlen_accumulates[OF run, of "[4, 5, 6] @ replicate 7 0"] run
  show ?thesis by simp
qed

text \<open>
  C7, as the code has it. When \<^verbatim>\<open>*outlen\<close> is 0 at entry and the call comes back from the end
  of the function, the result buffer is the concatenation, in order, of the bytes of the
  fragments, its size is the total kept in \<^verbatim>\<open>*outlen\<close>, that total is the sum of the lengths
  of the fragments walked by the final copy, and every fragment has been freed.
\<close>

theorem result_is_concatenation:
  assumes "feed_loop eng (init_state strm 0 r0) (length src) src = Some (Finished sf)"
    and "finish sf = Inr rr"
  shows "r_outmsg rr = Some (concat (map node_bytes (chain sf @ [outdata sf]))) \<and>
         length (concat (map node_bytes (chain sf @ [outdata sf]))) = unat (r_outlen rr) \<and>
         unat (r_outlen rr) = sum_list (map len (chain sf @ [outdata sf])) \<and>
         r_live rr = []"
proof -
  from assms(1) init_feed_inv[of 0 "length src" strm r0] have f: "final_inv 0 sf"
    by (cases rule: feed_loop_result) auto
  then have c: "concat (map node_bytes (chain sf @ [outdata sf])) = decoded (trace sf)"
    and ok: "list_all node_ok (chain sf @ [outdata sf])"
    by (simp_all add: final_inv_def)
  have fit: "length (decoded (trace sf)) \<le> unat (outlen sf)"
  proof (rule ccontr)
    assume "\<not> ?thesis"
    then have "unat (outlen sf) < length (decoded (trace sf))" by simp
    from finish_overflows[OF f this] assms(2) show False by simp
  qed
  from finish_returns[OF f fit] assms(2) concat_node_bytes_length[OF ok] show ?thesis
    unfolding c by auto
qed

text \<open>
  A run of C7 over three fragments: an input of \<open>CHUNK + 1\<close> bytes for which the engine
  writes \<open>CHUNK\<close> bytes, then three, then, for the second slice, one.
\<close>

theorem result_is_concatenation_witness:
  "\<exists>sf rr. feed_loop scripted
       (init_state \<lparr>next_in = [], avail_out = 0,
          zstate = [(Z_OK, CHUNK, replicate CHUNK 7), (Z_OK, 0, [7, 7, 7]), (Z_STREAM_END, 1, [8])]\<rparr>
          0 0)
       (length (replicate (CHUNK + 1) (9 :: byte))) (replicate (CHUNK + 1) 9) = Some (Finished sf) \<and>
     finish sf = Inr rr \<and> map len (chain sf @ [outdata sf]) = [CHUNK, 3, 1] \<and>
     r_outmsg rr = Some (replicate CHUNK 7 @ [7, 7, 7, 8]) \<and> unat (r_outlen rr) = CHUNK + 4"
proof -
  let ?sf = "\<lparr>stream = \<lparr>next_in = [], avail_out = CHUNK - 1, zstate = []\<rparr>,
      chain = [\<lparr>data = Some (replicate CHUNK 7), len = CHUNK\<rparr>,
               \<lparr>data = Some ([7, 7, 7] @ replicate (CHUNK - 3) 0), len = 3\<rparr>],
      outdata = \<lparr>data = Some (8 # replicate (CHUNK - 1) 0), len = 1\<rparr>,
      outlen = of_nat CHUNK + 4, ret = Z_STREAM_END,
      trace = [Feed CHUNK, Inflate Z_OK (replicate CHUNK 7), Inflate Z_OK [7, 7, 7],
               Feed 1, Inflate Z_STREAM_END [8]]\<rparr>
     :: (int \<times> nat \<times> byte list) list dstate"
  let ?rr = "\<lparr>r_status = Z_OK, r_outmsg = Some (replicate CHUNK 7 @ [7, 7, 7, 8]),
      r_outlen = of_nat CHUNK + 4, r_stream = \<lparr>next_in = [], avail_out = CHUNK - 1, zstate = []\<rparr>,
      r_live = [], r_trace = [Feed CHUNK, Inflate Z_OK (replicate CHUNK 7), Inflate Z_OK [7, 7, 7],
               Feed 1, Inflate Z_STREAM_END [8]]\<rparr>
     :: (int \<times> nat \<times> byte list) list dresult"
  have run: "feed_loop scripted
       (init_state \<lparr>next_in = [], avail_out = 0,
          zstate = [(Z_OK, CHUNK, replicate CHUNK 7), (Z_OK, 0, [7, 7, 7]), (Z_STREAM_END, 1, [8])]\<rparr>
          0 0)
       (length (replicate (CHUNK + 1) (9 :: byte))) (replicate (CHUNK + 1) 9) = Some (Finished ?sf)"
    by (simp add: run_simps CHUNK_def)
  have fin: "finish ?sf = Inr ?rr"
    by (simp add: run_simps CHUNK_def)
  from result_is_concatenation[OF run fin] run fin
  show ?thesis by (simp add: CHUNK_def)
qed

text \<open>
  C7 as stated fails: with \<^verbatim>\<open>*outlen\<close> at 3 on entry, the stream 1, 2, 0 fills one fragment
  of two bytes, but the total is 5 and the result buffer holds 1, 2 and three zero bytes.
\<close>

theorem result_with_outlen_set:
  "feed_loop toy (init_state toy_stream 3 0) 3 [1, 2, 0] =
     Some (Finished
       \<lparr>stream = \<lparr>next_in = [], avail_out = CHUNK - 2, zstate = Ended\<rparr>, chain = [],
        outdata = \<lparr>data = Some ([1, 2] @ replicate (CHUNK - 2) 0), len = 2\<rparr>,
        outlen = 5, ret = Z_STREAM_END, trace = [Feed 3, Inflate Z_STREAM_END [1, 2]]\<rparr>) \<and>
   decode_message toy toy_stream [1, 2, 0] 3 0 =
     Some (Inr \<lparr>r_status = Z_OK, r_outmsg = Some ([1, 2] @ replicate 3 0), r_outlen = 5,
                r_stream = \<lparr>next_in = [], avail_out = CHUNK - 2, zstate = Ended\<rparr>,
                r_live = [], r_trace = [Feed 3, Inflate Z_STREAM_END [1, 2]]\<rparr>)"
  by (simp add: run_simps CHUNK_def)

section \<open>The sizes of the fragments\<close>

text \<open>
  C8, as the code has it. Among the fragments filled while one slice is drained, every one
  but the last holds exactly \<^const>\<open>CHUNK\<close> bytes, and the last holds fewer. That last fragment
  stays in the chain as it is when the next slice is fed, so fragments of fewer than
  \<^const>\<open>CHUNK\<close> bytes occur before the end of the chain.
\<close>

theorem fragments_of_one_slice:
  assumes "drain eng s = Some (Finished s')" and "outdata s = new_node"
  shows "\<exists>full. chain s' = chain s @ full \<and> (\<forall>node \<in> set full. len node = CHUNK) \<and>
           len (outdata s') < CHUNK"
proof -
  let ?I = "\<lambda>s1. outdata s1 = new_node \<and>
              (\<exists>full. chain s1 = chain s @ full \<and> (\<forall>node \<in> set full. len node = CHUNK))"
  obtain s1 where i: "?I s1" and d: "drain_step eng s1 = Done s'"
  proof (rule drain_final[OF assms(1), of ?I])
    show "?I s" using assms(2) by simp
    show "?I s2" if "?I s1" and "drain_step eng s1 = More s2" for s1 s2
    proof -
      from that(1) have n: "outdata s1 = new_node" by simp
      from n that show ?thesis
        by (cases rule: drain_step_cases[where eng = eng]) auto
    qed
  qed auto
  from i have n: "outdata s1 = new_node" by simp
  from n d i show ?thesis
    by (cases rule: drain_step_cases[where eng = eng]) auto
qed

text \<open>A run of C8: one slice, for which the engine writes \<open>CHUNK\<close> bytes and then three.\<close>

theorem fragments_of_one_slice_witness:
  "\<exists>s'. drain scripted
       (init_state \<lparr>next_in = [9], avail_out = 0,
          zstate = [(Z_OK, 0, replicate CHUNK 7), (Z_OK, 1, [7, 7, 7])]\<rparr> 0 0) = Some (Finished s') \<and>
     outdata (init_state \<lparr>next_in = [9], avail_out = 0,
          zstate = [(Z_OK, 0, replicate CHUNK 7), (Z_OK, 1, [7, 7, 7])]\<rparr> 0 0) = new_node \<and>
     map len (chain s') = [CHUNK] \<and> len (outdata s') = 3"
proof -
  let ?s = "init_state \<lparr>next_in = [9], avail_out = 0,
          zstate = [(Z_OK, 0, replicate CHUNK 7), (Z_OK, 1, [7, 7, 7])]\<rparr> 0 0"
  let ?s' = "\<lparr>stream = \<lparr>next_in = [], avail_out = CHUNK - 3, zstate = []\<rparr>,
      chain = [\<lparr>data = Some (replicate CHUNK 7), len = CHUNK\<rparr>],
      outdata = \<lparr>data = Some ([7, 7, 7] @ replicate (CHUNK - 3) 0), len = 3\<rparr>,
      outlen = of_nat CHUNK + 3, ret = Z_OK,
      trace = [Inflate Z_OK (replicate CHUNK 7), Inflate Z_OK [7, 7, 7]]\<rparr>
     :: (int \<times> nat \<times> byte list) list dstate"
  have run: "drain scripted ?s = Some (Finished ?s')"
    by (simp add: run_simps CHUNK_def)
  have new: "outdata ?s = new_node"
    by (simp add: init_state_def)
  from fragments_of_one_slice[OF run new] run new
  show ?thesis by simp
qed

text \<open>
  C8 as stated fails, on a call that succeeds: an input of \<open>CHUNK + 1\<close> bytes, two slices,
  for which the engine writes \<open>CHUNK\<close> bytes and then three while the first slice is drained,
  and one byte for the second. The chain has three fragments, of \<open>CHUNK\<close>, 3 and 1 bytes: the
  second is not the last and holds three bytes.
\<close>

theorem short_fragment_before_last:
  "feed_loop scripted
     (init_state \<lparr>next_in = [], avail_out = 0,
        zstate = [(Z_OK, CHUNK, replicate CHUNK 7), (Z_OK, 0, [7, 7, 7]), (Z_STREAM_END, 1, [8])]\<rparr> 0 0)
     (CHUNK + 1) (replicate (CHUNK + 1) 9) =
   Some (Finished
     \<lparr>stream = \<lparr>next_in = [], avail_out = CHUNK - 1, zstate = []\<rparr>,
      chain = [\<lparr>data = Some (replicate CHUNK 7), len = CHUNK\<rparr>,
               \<lparr>data = Some ([7, 7, 7] @ replicate (CHUNK - 3) 0), len = 3\<rparr>],
      outdata = \<lparr>data = Some (8 # replicate (CHUNK - 1) 0), len = 1\<rparr>,
      outlen = of_nat CHUNK + 4, ret = Z_STREAM_END,
      trace = [Feed CHUNK, Inflate Z_OK (replicate CHUNK 7), Inflate Z_OK [7, 7, 7],
               Feed 1, Inflate Z_STREAM_END [8]]\<rparr>) \<and>
   decode_message scripted
     \<lparr>next_in = [], avail_out = 0,
      zstate = [(Z_OK, CHUNK, replicate CHUNK 7), (Z_OK, 0, [7, 7, 7]), (Z_STREAM_END, 1, [8])]\<rparr>
     (replicate (CHUNK + 1) 9) 0 0 =
   Some (Inr \<lparr>r_status = Z_OK, r_outmsg = Some (replicate CHUNK 7 @ [7, 7, 7, 8]),
      r_outlen = of_nat CHUNK + 4, r_stream = \<lparr>next_in = [], avail_out = CHUNK - 1, zstate = []\<rparr>,
      r_live = [], r_trace = [Feed CHUNK, Inflate Z_OK (replicate CHUNK 7), Inflate Z_OK [7, 7, 7],
               Feed 1, Inflate Z_STREAM_END [8]]\<rparr>)"
  by (simp add: run_simps CHUNK_def)

text \<open>No fragment of the chain the outer loop leaves holds more than \<^const>\<open>CHUNK\<close> bytes.\<close>

lemma node_ok_bounded: "node_ok node \<Longrightarrow> len node \<le> CHUNK"
  by (auto simp: node_ok_def split: option.splits)

lemma final_chain_bounded:
  assumes "feed_loop eng (init_state strm ol r0) (length src) src = Some (Finished sf)"
  shows "list_all (\<lambda>node. len node \<le> CHUNK) (chain sf @ [outdata sf])"
proof -
  from assms init_feed_inv[of ol "length src" strm r0] have "final_inv ol sf"
    by (cases rule: feed_loop_result) auto
  then have "list_all node_ok (chain sf @ [outdata sf])" by (simp add: final_inv_def)
  then show ?thesis
    by (rule list.pred_mono_strong) (rule node_ok_bounded)
qed

section \<open>Decoding a whole stream\<close>

lemma decodesD:
  assumes "decodes eng R I X" and "R z i j" and "take (length inp) (drop i I) = inp" and "0 < n"
    and "zinflate eng z inp n = (r, z', c, bs)"
  shows "c \<le> length inp" and "length bs \<le> n" and "take (length bs) (drop j X) = bs"
    and "R z' (i + c) (j + length bs)" and "\<not> is_fatal r"
    and "r = Z_STREAM_END \<Longrightarrow> j + length bs = length X"
    and "length bs < n \<Longrightarrow> r \<noteq> Z_STREAM_END \<Longrightarrow> c = length inp \<and> i + c < length I"
proof -
  from assms have *: "c \<le> length inp \<and> length bs \<le> n \<and> take (length bs) (drop j X) = bs \<and>
          R z' (i + c) (j + length bs) \<and> \<not> is_fatal r \<and>
          (r = Z_STREAM_END \<longrightarrow> j + length bs = length X) \<and>
          (length bs < n \<and> r \<noteq> Z_STREAM_END \<longrightarrow> c = length inp \<and> i + c < length I)"
    unfolding decodes_def by blast
  from * show "c \<le> length inp" "length bs \<le> n" "take (length bs) (drop j X) = bs"
    "R z' (i + c) (j + length bs)" "\<not> is_fatal r" by simp_all
  from * show "r = Z_STREAM_END \<Longrightarrow> j + length bs = length X" by simp
  from * show "length bs < n \<Longrightarrow> r \<noteq> Z_STREAM_END \<Longrightarrow> c = length inp \<and> i + c < length I" by simp
qed

text \<open>The inner loop on a stream the engine decodes.\<close>

lemma drain_decodes:
  assumes dec: "decodes eng R I X"
  shows "\<lbrakk>outdata s = new_node; R (zstate (stream s)) i j;
          take (length (next_in (stream s))) (drop i I) = next_in (stream s);
          decoded (trace s) = take j X; j \<le> length X\<rbrakk>
         \<Longrightarrow> \<exists>s' i' j'. drain eng s = Some (Finished s') \<and> R (zstate (stream s')) i' j' \<and>
               decoded (trace s') = take j' X \<and> j' \<le> length X \<and>
               (ret s' = Z_STREAM_END \<longrightarrow> j' = length X) \<and>
               (ret s' \<noteq> Z_STREAM_END \<longrightarrow>
                  i' = i + length (next_in (stream s)) \<and> i' < length I)"
proof (induction "length X - j" arbitrary: s i j rule: less_induct)
  case less
  let ?inp = "next_in (stream s)"
  obtain r z' c bs where z: "zinflate eng (zstate (stream s)) ?inp CHUNK = (r, z', c, bs)"
    by (metis prod_cases4)
  note d = decodesD[OF dec less.prems(2) less.prems(3) CHUNK_pos z]
  let ?strm = "(stream s)\<lparr>next_in := drop c ?inp, avail_out := CHUNK - length bs, zstate := z'\<rparr>"
  from z d(1,2) have inf: "inflate eng ((stream s)\<lparr>avail_out := CHUNK\<rparr>) = (r, bs, ?strm)"
    by (simp add: inflate_def min_def)
  have st: "drain_step eng s =
     (if length bs = CHUNK then More (link_node (step_ok s r bs ?strm))
      else Done (step_ok s r bs ?strm))"
    using drain_step_new[OF less.prems(1) inf d(2)] d(5) by simp
  have "length (take (length bs) (drop j X)) = length bs"
    by (simp only: d(3))
  then have le: "j + length bs \<le> length X"
    using less.prems(5) by (simp add: min_def split: if_splits)
  have "take (j + length bs) X = take j X @ take (length bs) (drop j X)"
    by (rule take_add)
  then have dec': "decoded (trace s) @ bs = take (j + length bs) X"
    by (simp only: d(3) less.prems(4))
  show ?case
  proof (cases "length bs = CHUNK")
    case True
    let ?s1 = "link_node (step_ok s r bs ?strm)"
    have "length X - (j + length bs) < length X - j"
      using le True CHUNK_pos by simp
    moreover have "outdata ?s1 = new_node" by simp
    moreover have "R (zstate (stream ?s1)) (i + c) (j + length bs)" using d(4) by simp
    moreover have "take (length (next_in (stream ?s1))) (drop (i + c) I) = next_in (stream ?s1)"
    proof -
      have "drop c (take (length ?inp) (drop i I)) = drop c ?inp"
        using less.prems(3) by simp
      then have "take (length ?inp - c) (drop (i + c) I) = drop c ?inp"
        by (simp add: drop_take add.commute)
      then show ?thesis by simp
    qed
    moreover have "decoded (trace ?s1) = take (j + length bs) X" using dec' by simp
    ultimately obtain s' i' j' where r: "drain eng ?s1 = Some (Finished s')"
      "R (zstate (stream s')) i' j'" "decoded (trace s') = take j' X" "j' \<le> length X"
      "ret s' = Z_STREAM_END \<longrightarrow> j' = length X"
      "ret s' \<noteq> Z_STREAM_END \<longrightarrow> i' = i + c + length (next_in (stream ?s1)) \<and> i' < length I"
      using less.hyps[of "j + length bs" ?s1 "i + c"] le by blast
    from st True r(1) have "drain eng s = Some (Finished s')"
      by (subst drain.simps) simp
    moreover from r(6) d(1) have "ret s' \<noteq> Z_STREAM_END \<longrightarrow> i' = i + length ?inp \<and> i' < length I"
      by auto
    ultimately show ?thesis using r(2-5) by blast
  next
    case False
    let ?s1 = "step_ok s r bs ?strm"
    from st False have "drain eng s = Some (Finished ?s1)"
      by (subst drain.simps) simp
    moreover have "R (zstate (stream ?s1)) (i + c) (j + length bs)" using d(4) by simp
    moreover have "decoded (trace ?s1) = take (j + length bs) X" using dec' by simp
    moreover have "ret ?s1 = Z_STREAM_END \<longrightarrow> j + length bs = length X" using d(6) by simp
    moreover have "ret ?s1 \<noteq> Z_STREAM_END \<longrightarrow> i + c = i + length ?inp \<and> i + c < length I"
      using d(7) d(2) False by auto
    ultimately show ?thesis using le by blast
  qed
qed


text \<open>The outer loop on a stream the engine decodes.\<close>

lemma feed_loop_decodes:
  assumes dec: "decodes eng R I X"
  shows "\<lbrakk>0 < rem; rem \<le> length I; idx = drop (length I - rem) I; outdata s = new_node;
          R (zstate (stream s)) (length I - rem) j; decoded (trace s) = take j X; j \<le> length X\<rbrakk>
         \<Longrightarrow> \<exists>sf. feed_loop eng s rem idx = Some (Finished sf) \<and> ret sf = Z_STREAM_END \<and>
               decoded (trace sf) = X"
proof (induction rem arbitrary: s idx j rule: less_induct)
  case (less rem)
  let ?i = "length I - rem"
  define a where "a = min CHUNK rem"
  define inb where "inb = take a idx @ replicate (CHUNK - length (take a idx)) 0"
  define rem' where "rem' = rem - a"
  define idx' where "idx' = (if CHUNK \<le> rem then drop CHUNK idx else idx)"
  have ns: "next_slice rem idx = (a, inb, rem', idx')"
    by (auto simp: next_slice_def a_def inb_def rem'_def idx'_def min_def)
  from less.prems(1) have a0: "a \<noteq> 0" and ale: "a \<le> rem"
    using CHUNK_pos by (simp_all add: a_def)
  from less.prems(2,3) have li: "length idx = rem" by simp
  with ale have ti: "take a inb = take a idx" by (simp add: inb_def)
  let ?s1 = "feed_slice s a inb"
  have nin: "next_in (stream ?s1) = take a (drop ?i I)"
    using ti less.prems(3) by simp
  have lin: "length (next_in (stream ?s1)) = a"
    using li ale less.prems(3) by (simp add: ti)
  have "\<exists>s' i' j'. drain eng ?s1 = Some (Finished s') \<and> R (zstate (stream s')) i' j' \<and>
               decoded (trace s') = take j' X \<and> j' \<le> length X \<and>
               (ret s' = Z_STREAM_END \<longrightarrow> j' = length X) \<and>
               (ret s' \<noteq> Z_STREAM_END \<longrightarrow>
                  i' = ?i + length (next_in (stream ?s1)) \<and> i' < length I)"
  proof (rule drain_decodes[OF dec])
    show "outdata ?s1 = new_node" using less.prems(4) by simp
    show "R (zstate (stream ?s1)) ?i j" using less.prems(5) by simp
    have "take a (drop ?i I) = next_in (stream ?s1)" by (simp only: nin)
    then show "take (length (next_in (stream ?s1))) (drop ?i I) = next_in (stream ?s1)"
      by (simp only: lin)
    show "decoded (trace ?s1) = take j X" using less.prems(6) by simp
    show "j \<le> length X" by (rule less.prems(7))
  qed
  then obtain s' i' j' where d: "drain eng ?s1 = Some (Finished s')"
    and R': "R (zstate (stream s')) i' j'" and tr: "decoded (trace s') = take j' X"
    and j': "j' \<le> length X" and e: "ret s' = Z_STREAM_END \<Longrightarrow> j' = length X"
    and g: "ret s' \<noteq> Z_STREAM_END \<Longrightarrow> i' = ?i + a \<and> i' < length I"
    unfolding lin by blast
  show ?case
  proof (cases "ret s' = Z_STREAM_END")
    case True
    with ns a0 d have "feed_loop eng s rem idx = Some (Finished s')"
      by (subst feed_loop.simps) simp
    with True tr e show ?thesis by simp
  next
    case False
    from g[OF False] have i': "i' = ?i + a" and lt: "?i + a < length I" by simp_all
    from lt less.prems(2) have "a < rem" by simp
    then have big: "CHUNK \<le> rem" and aC: "a = CHUNK" by (simp_all add: a_def min_def split: if_splits)
    have r0: "0 < rem'" and rl: "rem' < rem" and rI: "rem' \<le> length I"
      using \<open>a < rem\<close> a0 less.prems(2) by (simp_all add: rem'_def)
    have il: "length I - rem' = ?i + a"
      using \<open>a < rem\<close> less.prems(2) by (simp add: rem'_def)
    have ix: "idx' = drop (length I - rem') I"
      using big aC less.prems(3) by (simp add: idx'_def il add.commute)
    have "\<exists>sf. feed_loop eng (link_node s') rem' idx' = Some (Finished sf) \<and> ret sf = Z_STREAM_END \<and>
               decoded (trace sf) = X"
    proof (rule less.IH[OF rl r0 rI ix])
      show "outdata (link_node s') = new_node" by simp
      show "R (zstate (stream (link_node s'))) (length I - rem') j'" using R' il i' by simp
      show "decoded (trace (link_node s')) = take j' X" using tr by simp
      show "j' \<le> length X" by (rule j')
    qed
    moreover from ns a0 d False have "feed_loop eng s rem idx = feed_loop eng (link_node s') rem' idx'"
      by (subst feed_loop.simps) simp
    ultimately show ?thesis by simp
  qed
qed

text \<open>The small engine decodes every sequence of its literal bytes, followed by 0.\<close>

lemma toy_decodes:
  assumes good: "\<forall>b \<in> set X. 0 < b \<and> b < 253"
  shows "decodes toy (toy_at X) (X @ [0]) X"
  unfolding decodes_def
proof (rule conjI, simp, intro allI impI)
  fix z i j inp n r z' c bs
  assume a: "toy_at X z i j \<and> take (length inp) (drop i (X @ [0])) = inp \<and> 0 < n \<and>
    zinflate toy z inp n = (r, z', c, bs)"
  then have R: "toy_at X z i j" and pre: "take (length inp) (drop i (X @ [0])) = inp"
    and n: "0 < n" and call: "toy_inflate z inp n = (r, z', c, bs)"
    by (simp_all add: toy_def)
  let ?P = "\<lambda>b::byte. 0 < b \<and> b < 253"
  let ?goal = "c \<le> length inp \<and> length bs \<le> n \<and> take (length bs) (drop j X) = bs \<and>
       toy_at X z' (i + c) (j + length bs) \<and> \<not> is_fatal r \<and>
       (r = Z_STREAM_END \<longrightarrow> j + length bs = length X) \<and>
       (length bs < n \<and> r \<noteq> Z_STREAM_END \<longrightarrow> c = length inp \<and> i + c < length (X @ [0]))"
  from R consider (run) "z = Running" "i = j" "j \<le> length X"
    | (fin) "z = Ended" "j = length X" "i = length X + 1"
    by (auto simp: toy_at_def)
  then show ?goal
  proof cases
    case fin
    from pre fin have "inp = []" by simp
    with call fin show ?thesis by (auto simp: toy_inflate_def toy_at_def)
  next
    case run
    let ?Y = "drop j X"
    from good have gY: "\<forall>b \<in> set ?Y. ?P b" by (meson in_set_dropD)
    from run pre have inp: "inp = take (length inp) (?Y @ [0])" by simp
    have nf: "\<not> is_fatal Z_OK" "\<not> is_fatal Z_BUF_ERROR" "Z_OK \<noteq> Z_STREAM_END" "Z_BUF_ERROR \<noteq> Z_STREAM_END"
      by (simp_all add: is_fatal_def rc_defs)
    show ?thesis
    proof (cases "length inp \<le> length ?Y")
      case True
      with inp have iY: "inp = take (length inp) ?Y" by simp
      then have "set inp \<subseteq> set ?Y" by (metis set_take_subset)
      with gY have "\<forall>b \<in> set inp. ?P b" by blast
      then have lit: "takeWhile ?P inp = inp" by (simp add: takeWhile_eq_all_conv)
      have pref: "take (length (take n inp)) ?Y = take n inp"
        by (subst (2) iY, subst iY) (simp add: min_def)
      have le: "j + length inp \<le> length X" using True run(3) by simp
      show ?thesis
      proof (cases "n < length inp")
        case s: True
        with call run lit have res: "r = Z_OK" "z' = Running" "c = length (take n inp)" "bs = take n inp"
          by (auto simp: toy_inflate_def Let_def)
        from s have "length bs = n" by (simp add: res)
        with res pref le run s nf show ?thesis by (simp add: toy_at_def)
      next
        case s: False
        then have tk: "take n inp = inp" by simp
        with call run lit have res: "r = (if inp = [] then Z_BUF_ERROR else Z_OK)" "z' = Running"
          "c = length inp" "bs = inp"
          by (auto simp: toy_inflate_def Let_def)
        with pref tk le run nf show ?thesis by (simp add: toy_at_def)
      qed
    next
      case False
      with inp have iY: "inp = ?Y @ [0]" by simp
      from gY have lit: "takeWhile ?P inp = ?Y" by (simp add: iY takeWhile_append2)
      show ?thesis
      proof (cases "n < length ?Y")
        case s: True
        with call run lit have res: "r = Z_OK" "z' = Running" "c = length (take n ?Y)" "bs = take n ?Y"
          by (auto simp: toy_inflate_def Let_def)
        from s have "length bs = n" by (simp add: res)
        with res run s nf iY show ?thesis by (simp add: toy_at_def min_def)
      next
        case s: False
        then have tk: "take n ?Y = ?Y" by simp
        with call run lit iY have res: "r = Z_STREAM_END" "z' = Ended" "c = length ?Y + 1" "bs = ?Y"
          by (auto simp: toy_inflate_def Let_def)
        with run iY s show ?thesis by (simp add: toy_at_def)
      qed
    qed
  qed
qed

text \<open>
  C1, as the code has it. Let the engine decode the input \<open>I\<close> to the bytes \<open>X\<close>, starting
  from the state the session is in at the call (for zlib: \<open>I\<close> is a complete gzip stream of
  \<open>X\<close> and the session has decoded nothing since \<^verbatim>\<open>init_decoder\<close>), and let \<^verbatim>\<open>*outlen\<close> be 0 at
  the call. Then \<^verbatim>\<open>decode_message\<close> returns, its status is \<^verbatim>\<open>Z_OK\<close>, the bytes written to the
  output buffer are exactly \<open>X\<close>, \<^verbatim>\<open>*outlen\<close> is the length of \<open>X\<close>, and no fragment stays
  allocated. This holds for \<open>X\<close> of every length (below \<open>2 ^ 64\<close>, the range of \<^verbatim>\<open>gulong\<close>) and
  for inputs of any number of slices.
\<close>

theorem decode_round_trip:
  assumes "decodes eng R I X" and "R (zstate strm) 0 0" and "length X < 2 ^ 64"
  shows "\<exists>rr. decode_message eng strm I 0 r0 = Some (Inr rr) \<and> r_status rr = Z_OK \<and>
           r_outmsg rr = Some X \<and> unat (r_outlen rr) = length X \<and> r_live rr = []"
proof -
  from assms(1) have ne: "I \<noteq> []" by (simp add: decodes_def)
  have "\<exists>sf. feed_loop eng (init_state strm 0 r0) (length I) I = Some (Finished sf) \<and>
          ret sf = Z_STREAM_END \<and> decoded (trace sf) = X"
    by (rule feed_loop_decodes[OF assms(1), where j = 0])
       (use ne assms(2) in \<open>simp_all add: init_state_def\<close>)
  then obtain sf where f: "feed_loop eng (init_state strm 0 r0) (length I) I = Some (Finished sf)"
    and r: "ret sf = Z_STREAM_END" and x: "decoded (trace sf) = X" by blast
  from f init_feed_inv[of 0 "length I" strm r0] have fi: "final_inv 0 sf"
    by (cases rule: feed_loop_result) auto
  then have "outlen sf = of_nat (length X)" using x by (simp add: final_inv_def)
  then have "unat (outlen sf) = length X"
    using assms(3) by (simp add: unat_of_nat)
  with x have fit: "length (decoded (trace sf)) \<le> unat (outlen sf)" by simp
  from finish_returns[OF fi fit] f r x show ?thesis
    by (simp add: decode_message_def)
qed

text \<open>
  A run of C1 over two slices: \<open>CHUNK + 1\<close> bytes, encoded in \<open>CHUNK + 2\<close> bytes.
\<close>

theorem decode_round_trip_witness:
  "decodes toy (toy_at (replicate (CHUNK + 1) 7)) (replicate (CHUNK + 1) 7 @ [0])
     (replicate (CHUNK + 1) 7) \<and>
   toy_at (replicate (CHUNK + 1) 7) (zstate toy_stream) 0 0 \<and>
   length (replicate (CHUNK + 1) (7 :: byte)) < 2 ^ 64 \<and>
   (\<exists>rr. decode_message toy toy_stream (replicate (CHUNK + 1) 7 @ [0]) 0 0 = Some (Inr rr) \<and>
      r_status rr = Z_OK \<and> r_outmsg rr = Some (replicate (CHUNK + 1) 7) \<and>
      unat (r_outlen rr) = CHUNK + 1 \<and> r_live rr = [])"
proof -
  have d: "decodes toy (toy_at (replicate (CHUNK + 1) 7)) (replicate (CHUNK + 1) 7 @ [0])
     (replicate (CHUNK + 1) 7)"
    by (rule toy_decodes) simp
  have r: "toy_at (replicate (CHUNK + 1) 7) (zstate toy_stream) 0 0"
    by (simp add: toy_at_def toy_stream_def)
  have l: "length (replicate (CHUNK + 1) (7 :: byte)) < 2 ^ 64"
    by (simp add: CHUNK_def)
  from decode_round_trip[OF d r l, of 0] d r l show ?thesis by simp
qed

text \<open>
  C1 as stated fails in two ways, shown on the stream 1, 2, 0, which the small engine decodes
  to 1, 2. With \<^verbatim>\<open>*outlen\<close> at 1 on entry the output buffer holds 1, 2, 0 and the length
  reported is 3. And on the session as a first, successful call leaves it, with the stream
  at its end, a second call on the same input returns \<^verbatim>\<open>Z_OK\<close> and an empty buffer.
\<close>

theorem round_trip_needs_fresh_call:
  "decodes toy (toy_at [1, 2]) [1, 2, 0] [1, 2] \<and>
   decode_message toy toy_stream [1, 2, 0] 1 0 =
     Some (Inr \<lparr>r_status = Z_OK, r_outmsg = Some [1, 2, 0], r_outlen = 3,
                r_stream = \<lparr>next_in = [], avail_out = CHUNK - 2, zstate = Ended\<rparr>,
                r_live = [], r_trace = [Feed 3, Inflate Z_STREAM_END [1, 2]]\<rparr>) \<and>
   decode_message toy toy_stream [1, 2, 0] 0 0 =
     Some (Inr \<lparr>r_status = Z_OK, r_outmsg = Some [1, 2], r_outlen = 2,
                r_stream = \<lparr>next_in = [], avail_out = CHUNK - 2, zstate = Ended\<rparr>,
                r_live = [], r_trace = [Feed 3, Inflate Z_STREAM_END [1, 2]]\<rparr>) \<and>
   decode_message toy \<lparr>next_in = [], avail_out = CHUNK - 2, zstate = Ended\<rparr> [1, 2, 0] 0 0 =
     Some (Inr \<lparr>r_status = Z_OK, r_outmsg = Some [], r_outlen = 0,
                r_stream = \<lparr>next_in = [1, 2, 0], avail_out = CHUNK, zstate = Ended\<rparr>,
                r_live = [], r_trace = [Feed 3, Inflate Z_STREAM_END []]\<rparr>)"
proof -
  have "decodes toy (toy_at [1, 2]) ([1, 2] @ [0]) [1, 2]"
    by (rule toy_decodes) simp
  then show ?thesis
    by (simp add: run_simps CHUNK_def)
qed

end
